theory Spec2Isabelle
  imports Complex_Main "HOL-Library.Sublist" "HOL-Library.Signed_Division" "HOL-Library.Word"
begin

section \<open>The dive-profile engine of core/profile.c\<close>

text \<open>
  The engine is C. Its \<open>int\<close> values are modelled as unbounded integers: the
  quantities are seconds, millimetres and millibar of one dive, far from the 32-bit range,
  and signed overflow has no defined behaviour in C that a model could follow. C's integer
  division truncates towards zero; it is written \<open>sdiv\<close> wherever the dividend may be
  negative. Pointers into arrays become list positions, a \<open>NULL\<close> result becomes
  \<open>None\<close>. The \<open>double\<close> values of the consumption estimator are real numbers.
\<close>

subsection \<open>The event-name registry: \<open>remember_event\<close>\<close>

text \<open>
  The registry is the global array \<open>ev_namelist\<close> with its fill count \<open>evn_used\<close> and
  its capacity \<open>evn_allocated\<close>. The model keeps the used slots as a list, so
  \<open>evn_used\<close> is the length of the list. C strings are character lists without the
  terminating NUL.
\<close>

record ev_select =
  ev_name :: string
  plot_ev :: bool

record registry =
  ev_namelist :: "ev_select list"
  evn_allocated :: nat

definition evn_used :: "registry \<Rightarrow> nat" where
  "evn_used r = length (ev_namelist r)"

text \<open>
  \<open>strncmp s t n\<close>: compares at most \<open>n\<close> characters; the end of a string counts as
  the character NUL, which ends the comparison.
\<close>

fun strncmp :: "string \<Rightarrow> string \<Rightarrow> nat \<Rightarrow> int" where
  "strncmp s t 0 = 0"
| "strncmp [] [] (Suc n) = 0"
| "strncmp [] (y # ys) (Suc n) = - int (of_char y)"
| "strncmp (x # xs) [] (Suc n) = int (of_char x)"
| "strncmp (x # xs) (y # ys) (Suc n) =
     (if x = y then strncmp xs ys n else int (of_char x) - int (of_char y))"

text \<open>The \<open>while (i < evn_used)\<close> scan: does some registered name make \<open>strncmp\<close> return 0?\<close>

fun name_scan :: "string \<Rightarrow> ev_select list \<Rightarrow> bool" where
  "name_scan eventname [] = False"
| "name_scan eventname (e # es) =
     (if strncmp eventname (ev_name e) (length eventname) = 0 then True
      else name_scan eventname es)"

text \<open>
  \<open>remember_event\<close>. The argument \<open>realloc_ok\<close> says whether \<open>realloc\<close> succeeds should
  the function call it. The result \<open>None\<close> is the bail-out after a failed \<open>realloc\<close>: the
  array pointer is then \<open>NULL\<close> and the registry is lost. A \<open>NULL\<close> event name is
  \<open>None\<close>.
\<close>

definition remember_event :: "bool \<Rightarrow> string option \<Rightarrow> registry \<Rightarrow> registry option" where
  "remember_event realloc_ok eventname r =
     (case eventname of
        None \<Rightarrow> Some r
      | Some nm \<Rightarrow>
          if length nm = 0 then Some r
          else if name_scan nm (ev_namelist r) then Some r
          else if evn_used r = evn_allocated r then
            (if realloc_ok then
               Some (r\<lparr>ev_namelist := ev_namelist r @ [\<lparr>ev_name = nm, plot_ev = True\<rparr>],
                       evn_allocated := evn_allocated r + 10\<rparr>)
             else None)
          else Some (r\<lparr>ev_namelist := ev_namelist r @ [\<lparr>ev_name = nm, plot_ev = True\<rparr>]\<rparr>))"

subsection \<open>The entries of the dense series\<close>

text \<open>
  \<open>struct plot_data\<close> is declared in profile.h, outside the sources; its fields are
  taken from their uses. The densifier and the reconstructor work on the time \<open>sec\<close>,
  the depth, the SAC value and the sensor column of the pressure table: \<open>pressure e i\<close>
  is \<open>SENSOR_PRESSURE(e, i)\<close>. The other fields that the densifier writes are copied
  from the sample or from the previous entry and are read by no property below. The
  oxygen fields and the fields of the decompression solver extend the record.
\<close>

record plot_data =
  sec :: int
  depth :: int
  sac :: int
  pressure :: "nat \<Rightarrow> int"

record plot_data_o2 = plot_data +
  o2sensor :: "int list"
  o2pressure :: int


text \<open>A slot as \<open>calloc\<close> leaves it.\<close>

definition zero_entry :: plot_data where
  "zero_entry = \<lparr>sec = 0, depth = 0, sac = 0, pressure = (\<lambda>_. 0)\<rparr>"

subsection \<open>Oxygen sensor voting: \<open>calculate_ccr_po2\<close>\<close>

text \<open>
  The function reads \<open>entry->o2sensor[0..2]\<close>, \<open>entry->o2pressure\<close> and
  \<open>dc->no_o2sensors\<close>. The loop state is \<open>(np, sump, minp, maxp)\<close>.
\<close>

definition sensor_step :: "nat \<times> int \<times> int \<times> int \<Rightarrow> int \<Rightarrow> nat \<times> int \<times> int \<times> int" where
  "sensor_step st v =
     (case st of (np, sump, minp, maxp) \<Rightarrow>
        if v \<noteq> 0 then (np + 1, sump + v, min minp v, max maxp v) else st)"

definition diff_limit :: int where
  "diff_limit = 100"

text \<open>
  The \<open>switch (np)\<close>. In the case 3 the inner tests are \<open>if (2 * minp - sump + maxp)\<close>:
  they test the lower difference against zero, not against \<open>diff_limit\<close>.
\<close>

definition vote :: "int \<Rightarrow> nat \<times> int \<times> int \<times> int \<Rightarrow> int" where
  "vote previous st =
     (case st of (np, sump, minp, maxp) \<Rightarrow>
        if np = 0 then previous
        else if np = 1 then sump
        else if np = 2 then sump sdiv 2
        else if np = 3 then
          (if 2 * maxp - sump + minp < diff_limit then
             (if 2 * minp - sump + maxp \<noteq> 0 then sump sdiv 3 else (sump - minp) sdiv 2)
           else
             (if 2 * minp - sump + maxp \<noteq> 0 then (sump - maxp) sdiv 2 else sump sdiv 3))
        else 0)"

text \<open>
  The array \<open>o2sensor\<close> has three slots; with \<open>no_o2sensors > 3\<close> the loop reads past it,
  which is the result \<open>None\<close>.
\<close>

definition calculate_ccr_po2 :: "'a plot_data_o2_scheme \<Rightarrow> nat \<Rightarrow> int option" where
  "calculate_ccr_po2 entry no_o2sensors =
     (if no_o2sensors > 3 \<or> length (o2sensor entry) \<noteq> 3 then None
      else Some (vote (o2pressure entry)
             (foldl sensor_step (0, 0, 999999, -999999) (take no_o2sensors (o2sensor entry)))))"

subsection \<open>The entry densifier: \<open>populate_plot_entries\<close>\<close>

text \<open>
  Elapsed times of samples and events are the unsigned \<open>time.seconds\<close>; the function
  reads them into \<open>int\<close> variables (with the cast \<open>(int)ev->time.seconds\<close> in the
  comparisons), which is \<open>int\<close> of a natural number here. A divecomputer is its sample
  array and its event list.
\<close>

record sample =
  sample_time :: nat
  sample_depth :: int
  sample_sac :: int
  sample_pressure :: "int \<times> int"
  sample_sensor :: "nat \<times> nat"

record event =
  event_time :: nat
  event_name :: string
  gas_index :: int

record divecomputer =
  dc_sample :: "sample list"
  dc_events :: "event list"

text \<open>
  \<open>interpolate\<close> is declared in dive.h, which is not among the sources: the densifier
  takes it as the parameter \<open>interp\<close>, called as
  \<open>interp a b part whole\<close>.
\<close>

type_synonym interpolation = "int \<Rightarrow> int \<Rightarrow> int \<Rightarrow> int \<Rightarrow> int"

text \<open>
  Modelled from the spec: \<open>interpolate\<close> of dive.h (not among the sources), "linear
  interpolation of depth between the two samples": the value on the line from \<open>a\<close> at
  part 0 to \<open>b\<close> at part \<open>whole\<close>. The function is called with \<open>int\<close> arguments and its
  result is stored in the \<open>int\<close> field \<open>depth\<close>, so it is a whole number: the one
  nearest to the value on the line.
\<close>

definition interpolate :: interpolation where
  "interpolate a b part whole =
     (if whole \<noteq> 0 then (2 * (a * (whole - part) + b * part) + whole) div (2 * whole)
      else (a + b) sdiv 2)"

definition count_events :: "divecomputer \<Rightarrow> int" where
  "count_events dc = int (length (dc_events dc))"

text \<open>The capacity \<open>nr\<close> of the array that \<open>calloc\<close> allocates.\<close>

definition plot_capacity :: "divecomputer \<Rightarrow> int \<Rightarrow> int" where
  "plot_capacity dc maxtime = int (length (dc_sample dc)) + 6 + maxtime sdiv 10 + count_events dc"

text \<open>
  Where \<open>maxtime\<close> comes from: \<open>calculate_max_limits_new\<close> starts it at 0 and raises it
  to the time of every sample at which the diver is, or just was, below the surface
  threshold (\<open>SURFACE_THRESHOLD\<close> of dive.h, the parameter \<open>thr\<close>), and to the time of
  every event, over the dive computers it visits.
\<close>

fun samples_maxtime :: "int \<Rightarrow> sample list \<Rightarrow> int \<Rightarrow> int \<Rightarrow> int" where
  "samples_maxtime thr [] lastdepth maxtime = maxtime"
| "samples_maxtime thr (s # ss) lastdepth maxtime =
     samples_maxtime thr ss (sample_depth s)
       (if (sample_depth s > thr \<or> lastdepth > thr) \<and> int (sample_time s) > maxtime
        then int (sample_time s) else maxtime)"

fun events_maxtime :: "event list \<Rightarrow> int \<Rightarrow> int" where
  "events_maxtime [] maxtime = maxtime"
| "events_maxtime (e # evs) maxtime =
     events_maxtime evs (if int (event_time e) > maxtime then int (event_time e) else maxtime)"

definition calculate_max_limits_maxtime :: "int \<Rightarrow> divecomputer list \<Rightarrow> int" where
  "calculate_max_limits_maxtime thr dcs =
     fold (\<lambda>dc maxtime. events_maxtime (dc_events dc) (samples_maxtime thr (dc_sample dc) 0 maxtime))
       dcs 0"

text \<open>
  The macro \<open>INSERT_ENTRY(_time, _depth, _sac)\<close>: the next slot becomes a copy of the
  previous entry with the time, depth and SAC given and the pressures cleared. Entries are
  written one after the other from index 2 on, so the array written so far is a list and
  \<open>idx\<close> is its length.
\<close>

definition insert_entry :: "plot_data list \<Rightarrow> int \<Rightarrow> int \<Rightarrow> int \<Rightarrow> plot_data list" where
  "insert_entry es t d s = es @ [(last es)\<lparr>sec := t, depth := d, pressure := (\<lambda>_. 0), sac := s\<rparr>]"

text \<open>
  The variables of one pass of the sample loop: the time and depth kept from the previous
  sample, the time, depth and SAC of this one, and the duration \<open>delta\<close>.
\<close>

record span =
  lasttime :: int
  lastdepth :: int
  time :: int
  cur_depth :: int
  delta :: int
  cur_sac :: int

text \<open>
  The head of the loop body: \<open>delta = time - lasttime\<close>, and for \<open>delta <= 0\<close> the
  time becomes \<open>lasttime\<close> and \<open>delta\<close> becomes 1.
\<close>

definition sample_span :: "int \<Rightarrow> int \<Rightarrow> sample \<Rightarrow> span" where
  "sample_span lt ld s =
     (let t = int (sample_time s); d = t - lt in
      \<lparr>lasttime = lt, lastdepth = ld,
       time = (if d \<le> 0 then lt else t),
       cur_depth = sample_depth s,
       delta = (if d \<le> 0 then 1 else d),
       cur_sac = sample_sac s\<rparr>)"

text \<open>
  \<open>while (ev && (int)ev->time.seconds < bound) { INSERT_ENTRY(...); ev = ev->next; }\<close>
\<close>

fun events_before ::
  "interpolation \<Rightarrow> span \<Rightarrow> int \<Rightarrow> event list \<Rightarrow> plot_data list \<Rightarrow> event list \<times> plot_data list" where
  "events_before interp sp bound [] es = ([], es)"
| "events_before interp sp bound (e # ev) es =
     (if int (event_time e) < bound then
        events_before interp sp bound ev
          (insert_entry es (int (event_time e))
             (interp (lastdepth sp) (cur_depth sp) (int (event_time e) - lasttime sp) (delta sp))
             (cur_sac sp))
      else (e # ev, es))"

text \<open>\<open>while (ev && (int)ev->time.seconds == t) ev = ev->next;\<close>\<close>

fun skip_events_at :: "int \<Rightarrow> event list \<Rightarrow> event list" where
  "skip_events_at t [] = []"
| "skip_events_at t (e # ev) = (if int (event_time e) = t then skip_events_at t ev else e # ev)"

text \<open>
  \<open>for (offset = 10; offset < delta; offset += 10)\<close> with its \<open>break\<close> past \<open>maxtime\<close>.
\<close>

function raster ::
  "interpolation \<Rightarrow> int \<Rightarrow> span \<Rightarrow> int \<Rightarrow> event list \<Rightarrow> plot_data list \<Rightarrow> event list \<times> plot_data list" where
  "raster interp maxtime sp offset ev es =
     (if offset < delta sp then
        (if lasttime sp + offset > maxtime then (ev, es)
         else
           (case events_before interp sp (lasttime sp + offset) ev es of
              (ev1, es1) \<Rightarrow>
                raster interp maxtime sp (offset + 10)
                  (skip_events_at (lasttime sp + offset) ev1)
                  (insert_entry es1 (lasttime sp + offset)
                     (interp (lastdepth sp) (cur_depth sp) offset (delta sp)) (cur_sac sp))))
      else (ev, es))"
  by pat_completeness auto
termination
  by (relation "measure (\<lambda>(interp, maxtime, sp, offset, ev, es). nat (delta sp - offset))") auto

declare raster.simps [simp del]

text \<open>The entry of the sample itself, written into a fresh slot.\<close>

definition sample_entry :: "span \<Rightarrow> sample \<Rightarrow> plot_data" where
  "sample_entry sp s =
     (let e0 = zero_entry\<lparr>sec := time sp, depth := cur_depth sp\<rparr>;
          e1 = (if fst (sample_pressure s) \<noteq> 0
                then e0\<lparr>pressure := (pressure e0)(fst (sample_sensor s) := fst (sample_pressure s))\<rparr>
                else e0);
          e2 = (if snd (sample_pressure s) \<noteq> 0
                then e1\<lparr>pressure := (pressure e1)(snd (sample_sensor s) := snd (sample_pressure s))\<rparr>
                else e1)
      in e2\<lparr>sac := sample_sac s\<rparr>)"

text \<open>The state carried from one sample to the next.\<close>

record densifier =
  entries :: "plot_data list"
  d_ev :: "event list"
  d_lasttime :: int
  d_lastdepth :: int

text \<open>One pass of \<open>for (i = 0; i < dc->samples; i++)\<close>, up to the test for the \<open>break\<close>.\<close>

definition sample_step :: "interpolation \<Rightarrow> int \<Rightarrow> densifier \<Rightarrow> sample \<Rightarrow> densifier" where
  "sample_step interp maxtime st s =
     (let sp = sample_span (d_lasttime st) (d_lastdepth st) s in
      case raster interp maxtime sp 10 (d_ev st) (entries st) of
        (ev1, es1) \<Rightarrow>
          (case events_before interp sp (time sp) ev1 es1 of
             (ev2, es2) \<Rightarrow>
               \<lparr>entries = es2 @ [sample_entry sp s],
                d_ev = skip_events_at (time sp) ev2,
                d_lasttime = time sp,
                d_lastdepth = cur_depth sp\<rparr>))"

fun sample_loop :: "interpolation \<Rightarrow> int \<Rightarrow> densifier \<Rightarrow> sample list \<Rightarrow> densifier" where
  "sample_loop interp maxtime st [] = st"
| "sample_loop interp maxtime st (s # ss) =
     (let st' = sample_step interp maxtime st s in
      if d_lasttime st' > maxtime then st' else sample_loop interp maxtime st' ss)"

text \<open>The loop "Add any remaining events"; it returns \<open>lasttime\<close> and the entries.\<close>

fun remaining_events :: "event list \<Rightarrow> int \<Rightarrow> plot_data list \<Rightarrow> int \<times> plot_data list" where
  "remaining_events [] lt es = (lt, es)"
| "remaining_events (e # ev) lt es =
     (if int (event_time e) > lt
      then remaining_events ev (int (event_time e)) (insert_entry es (int (event_time e)) 0 0)
      else remaining_events ev lt es)"

text \<open>
  The whole function. \<open>calloc_ok\<close> says whether the allocation succeeds; the result is the
  array up to the final \<open>pi->nr\<close>, or \<open>None\<close> for the \<open>NULL\<close> returned when it fails.
\<close>

definition populate_plot_entries ::
  "bool \<Rightarrow> interpolation \<Rightarrow> divecomputer \<Rightarrow> int \<Rightarrow> plot_data list option" where
  "populate_plot_entries calloc_ok interp dc maxtime =
     (if \<not> calloc_ok then None
      else
        (let st0 = \<lparr>entries = [zero_entry, zero_entry],
                    d_ev = skip_events_at 0 (dc_events dc),
                    d_lasttime = 0, d_lastdepth = 0\<rparr>;
             st = sample_loop interp maxtime st0 (dc_sample dc) in
         case remaining_events (d_ev st) (d_lasttime st) (entries st) of
           (lt, es) \<Rightarrow> Some (es @ [zero_entry\<lparr>sec := lt + 1\<rparr>, zero_entry\<lparr>sec := lt + 2\<rparr>])))"

subsection \<open>The consumption estimator: \<open>sac_between\<close>, \<open>fill_sac\<close> and \<open>calculate_sac\<close>\<close>

text \<open>
  What the estimator takes from outside the sources: the macro \<open>GET_PRESSURE(entry, i)\<close>
  of profile.h, which reads the pressure of cylinder \<open>i\<close> at an entry; \<open>gas_volume\<close>,
  called with the cylinder \<open>dive->cylinder + i\<close> and a pressure; \<open>depth_to_atm\<close>;
  \<open>same_gasmix\<close>, the gas mix \<open>cyl->gasmix\<close> of cylinder \<open>i\<close>, \<open>get_gasmix\<close> (called with
  the time of the entry, the event cursor \<open>ev\<close>, which starts as \<open>NULL\<close>, and the current
  mix; it returns the mix and moves the cursor) and \<open>gasmix_invalid\<close>; the constants
  \<open>MAX_CYLINDERS\<close> and \<open>SURFACE_THRESHOLD\<close>.

  The bitmap \<open>unsigned int gases\<close> is a 32-bit word, and \<open>gases & (1u << i)\<close> is its bit
  \<open>i\<close>, for \<open>i\<close> below 32. The \<open>double\<close> values are real numbers: rounding errors of
  the floating-point operations are not modelled.
\<close>

unbundle bit_operations_syntax
















subsection \<open>The gas pressure reconstructor: \<open>setup_gas_sensor_pressure\<close>\<close>



record cylinder =
  cyl_start :: int
  cyl_end :: int


text \<open>
  The variables of the walk over the gas-change events: the current cylinder \<open>prev\<close> and
  the arrays \<open>seen\<close>, \<open>first\<close> and \<open>last\<close>, each with one slot per cylinder.
\<close>

record gas_use =
  prev :: nat
  seen :: "int list"
  first_use :: "int list"
  last_use :: "int list"





text \<open>
  \<open>add_plot_pressure\<close>. The scan stops at the first entry with \<open>sec >= time\<close>; when
  there is none, \<open>entry\<close> is left at the last entry.
\<close>

fun target_index :: "int \<Rightarrow> plot_data list \<Rightarrow> nat" where
  "target_index t [] = 0"
| "target_index t [e] = 0"
| "target_index t (e # e' # es) = (if sec e \<ge> t then 0 else Suc (target_index t (e' # es)))"

definition add_plot_pressure :: "plot_data list \<Rightarrow> int \<Rightarrow> nat \<Rightarrow> int \<Rightarrow> plot_data list" where
  "add_plot_pressure pinfo t cyl p =
     (if length pinfo \<le> 0 then pinfo
      else
        (let i = target_index t pinfo in
         pinfo[i := (pinfo ! i)\<lparr>pressure := (pressure (pinfo ! i))(cyl := p)\<rparr>]))"


text \<open>The last loop: the two pressure entries of every cylinder that is not marked.\<close>

definition fill_cylinder ::
  "cylinder list \<Rightarrow> int list \<Rightarrow> gas_use \<Rightarrow> nat \<Rightarrow> plot_data list \<Rightarrow> plot_data list" where
  "fill_cylinder cyls sn g i pinfo =
     (if sn ! i \<ge> 0 then
        add_plot_pressure (add_plot_pressure pinfo (first_use g ! i) i (cyl_start (cyls ! i)))
          (last_use g ! i) i (cyl_end (cyls ! i))
      else pinfo)"



subsection \<open>The decompression solver: the outer loop of \<open>calculate_deco_information\<close>\<close>











subsection \<open>The nested simulation: \<open>calculate_ndl_tts\<close> between checkpoint and restore\<close>















subsection \<open>Inputs for running the densifier\<close>

definition sample_at :: "nat \<Rightarrow> int \<Rightarrow> sample" where
  "sample_at t d =
     \<lparr>sample_time = t, sample_depth = d, sample_sac = 0, sample_pressure = (0, 0),
      sample_sensor = (0, 0)\<rparr>"

definition event_at :: "nat \<Rightarrow> event" where
  "event_at t = \<lparr>event_time = t, event_name = ''bookmark'', gas_index = - 1\<rparr>"

definition example_dc :: divecomputer where
  "example_dc =
     \<lparr>dc_sample = [sample_at 10 1000, sample_at 40 4000],
      dc_events = [event_at 8, event_at 25]\<rparr>"

definition start_state :: densifier where
  "start_state = \<lparr>entries = [zero_entry, zero_entry], d_ev = [], d_lasttime = 0, d_lastdepth = 0\<rparr>"

subsection \<open>Inputs for running the reconstructor\<close>






subsection \<open>Inputs for running the outer loop\<close>




subsection \<open>Inputs for running the nested simulation\<close>




subsection \<open>Inputs for running the consumption estimator\<close>





section \<open>Properties\<close>

subsection \<open>The registry\<close>

lemma of_char_eq_0: "(of_char c :: nat) = 0 \<longleftrightarrow> c = CHR 0x00"
proof -
  have "(of_char c :: nat) = of_char (CHR 0x00) \<longleftrightarrow> c = CHR 0x00"
    by (rule of_char_eq_iff)
  then show ?thesis by simp
qed

lemma strncmp_prefix:
  "CHR 0x00 \<notin> set s \<Longrightarrow> strncmp s t (length s) = 0 \<longleftrightarrow> prefix s t"
proof (induction s arbitrary: t)
  case Nil
  then show ?case by simp
next
  case (Cons x xs)
  from Cons.prems have x0: "x \<noteq> CHR 0x00" and xs0: "CHR 0x00 \<notin> set xs" by auto
  show ?case
  proof (cases t)
    case Nil
    with x0 show ?thesis by (simp add: of_char_eq_0)
  next
    case (Cons y ys)
    have "x \<noteq> y \<Longrightarrow> int (of_char x) - int (of_char y) \<noteq> 0"
      by (metis eq_iff_diff_eq_0 of_char_eq_iff of_nat_eq_iff)
    with Cons Cons.IH [OF xs0, of ys] show ?thesis by auto
  qed
qed

lemma name_scan_prefix:
  "CHR 0x00 \<notin> set nm \<Longrightarrow> name_scan nm es \<longleftrightarrow> (\<exists>e \<in> set es. prefix nm (ev_name e))"
  by (induction es) (auto simp: strncmp_prefix)

text \<open>
  C10. \<open>remember_event\<close> leaves the registry unchanged when the name is null, empty or a
  prefix of a registered name (the comparison \<open>strncmp\<close> looks at the new name's length
  only). Otherwise, unless the array is full and \<open>realloc\<close> fails, it appends the name
  once, with \<open>plot_ev\<close> true, after the entries that were there. The name is a C string:
  no character of it is NUL.
\<close>

theorem remember_event_registry:
  assumes "\<forall>nm. eventname = Some nm \<longrightarrow> CHR 0x00 \<notin> set nm"
  shows
  "(eventname = None \<or> eventname = Some [] \<or>
      (\<exists>nm e. eventname = Some nm \<and> e \<in> set (ev_namelist r) \<and> prefix nm (ev_name e))
    \<longrightarrow> remember_event realloc_ok eventname r = Some r) \<and>
   (eventname = Some nm \<and> nm \<noteq> [] \<and>
      (\<forall>e \<in> set (ev_namelist r). \<not> prefix nm (ev_name e)) \<and>
      (evn_used r = evn_allocated r \<longrightarrow> realloc_ok)
    \<longrightarrow> (\<exists>r'. remember_event realloc_ok eventname r = Some r' \<and>
          ev_namelist r' = ev_namelist r @ [\<lparr>ev_name = nm, plot_ev = True\<rparr>] \<and>
          evn_used r' = evn_used r + 1))"
  using assms by (auto simp: remember_event_def name_scan_prefix evn_used_def)

theorem remember_event_registry_witness:
  "remember_event True (Some ''gas'')
      \<lparr>ev_namelist = [\<lparr>ev_name = ''gaschange'', plot_ev = True\<rparr>], evn_allocated = 10\<rparr>
     = Some \<lparr>ev_namelist = [\<lparr>ev_name = ''gaschange'', plot_ev = True\<rparr>], evn_allocated = 10\<rparr> \<and>
   (\<exists>r'. remember_event True (Some ''deco'')
      \<lparr>ev_namelist = [\<lparr>ev_name = ''gaschange'', plot_ev = True\<rparr>], evn_allocated = 10\<rparr> = Some r' \<and>
      ev_namelist r' = [\<lparr>ev_name = ''gaschange'', plot_ev = True\<rparr>, \<lparr>ev_name = ''deco'', plot_ev = True\<rparr>])"
proof -
  let ?r = "\<lparr>ev_namelist = [\<lparr>ev_name = ''gaschange'', plot_ev = True\<rparr>], evn_allocated = 10\<rparr>"
  have a: "prefix ''gas'' ''gaschange''" by simp
  have b: "\<not> prefix ''deco'' ''gaschange''" by simp
  from a remember_event_registry [of "Some ''gas''" ?r True "''gas''"]
  have 1: "remember_event True (Some ''gas'') ?r = Some ?r" by simp
  from b remember_event_registry [of "Some ''deco''" ?r True "''deco''"]
  have 2: "\<exists>r'. remember_event True (Some ''deco'') ?r = Some r' \<and>
      ev_namelist r' = [\<lparr>ev_name = ''gaschange'', plot_ev = True\<rparr>, \<lparr>ev_name = ''deco'', plot_ev = True\<rparr>]"
    by (auto simp: evn_used_def)
  from 1 2 show ?thesis by blast
qed

subsection \<open>Sensor voting\<close>

text \<open>
  C3, at three valid readings. For 1000, 1000 and 1050 mbar the upper difference
  \<open>2 * maxp - sump + minp\<close> is 50 and the lower difference \<open>2 * minp - sump + maxp\<close>
  is 0, both within the 100 mbar tolerance, yet the function discards the minimum and
  returns the average 1025 of the other two; the three-way average is 1016. For 700, 1000
  and 1010 mbar the minimum is 300 mbar away from the other two, yet the function returns
  the three-way average 903; the average of the two readings that agree is 1005.
\<close>

theorem calculate_ccr_po2_three_close_readings:
  "calculate_ccr_po2
     \<lparr>sec = 600, depth = 20000, sac = 0, pressure = (\<lambda>_. 0),
      o2sensor = [1000, 1000, 1050], o2pressure = 0\<rparr> 3 = Some 1025 \<and>
   (1000 + 1000 + 1050) sdiv 3 = (1016 :: int) \<and>
   calculate_ccr_po2
     \<lparr>sec = 600, depth = 20000, sac = 0, pressure = (\<lambda>_. 0),
      o2sensor = [700, 1000, 1010], o2pressure = 0\<rparr> 3 = Some 903 \<and>
   (1000 + 1010) sdiv 2 = (1005 :: int)"
  by (simp add: calculate_ccr_po2_def vote_def sensor_step_def diff_limit_def
      signed_divide_int_def)

subsection \<open>The densifier: how many entries it writes\<close>

lemma insert_entry_length [simp]: "length (insert_entry es t d s) = Suc (length es)"
  by (simp add: insert_entry_def)

lemma insert_entry_last [simp]: "sec (last (insert_entry es t d s)) = t"
  by (simp add: insert_entry_def)

lemma insert_entry_not_Nil [simp]: "insert_entry es t d s \<noteq> []"
  by (simp add: insert_entry_def)

lemma events_before_length:
  "events_before interp sp b evs es = (evs', es') \<Longrightarrow>
   length es' + length evs' = length es + length evs"
  by (induction evs arbitrary: es) (auto split: if_splits)

lemma skip_events_at_length: "length (skip_events_at t evs) \<le> length evs"
  by (induction evs) auto

lemma raster_length:
  "raster interp maxtime sp offset evs es = (evs', es') \<Longrightarrow>
   \<exists>k\<ge>0. int (length es') + int (length evs') \<le> int (length es) + int (length evs) + k \<and>
     (k = 0 \<or> (offset + 10 * (k - 1) < delta sp \<and> lasttime sp + offset + 10 * (k - 1) \<le> maxtime))"
proof (induction interp maxtime sp offset evs es rule: raster.induct)
  case (1 interp maxtime sp offset evs es)
  show ?case
  proof (cases "offset < delta sp \<and> \<not> lasttime sp + offset > maxtime")
    case False
    with "1.prems" have "evs' = evs" "es' = es"
      by (auto simp: raster.simps [of interp maxtime sp offset evs es] split: if_splits)
    then show ?thesis by (intro exI [of _ 0]) simp
  next
    case True
    obtain ev1 es1 where eb: "events_before interp sp (lasttime sp + offset) evs es = (ev1, es1)"
      by force
    let ?ev2 = "skip_events_at (lasttime sp + offset) ev1"
    let ?es2 = "insert_entry es1 (lasttime sp + offset)
                     (interp (lastdepth sp) (cur_depth sp) offset (delta sp)) (cur_sac sp)"
    from True eb "1.prems" have r: "raster interp maxtime sp (offset + 10) ?ev2 ?es2 = (evs', es')"
      by (simp add: raster.simps [of interp maxtime sp offset evs es])
    from True have c1: "offset < delta sp" and c2: "\<not> maxtime < lasttime sp + offset" by auto
    from "1.IH" [OF c1 c2 eb [symmetric] r]
    obtain k where k: "k \<ge> 0"
      "int (length es') + int (length evs') \<le> int (length ?es2) + int (length ?ev2) + k"
      "k = 0 \<or> (offset + 10 + 10 * (k - 1) < delta sp \<and> lasttime sp + (offset + 10) + 10 * (k - 1) \<le> maxtime)"
      by auto
    from events_before_length [OF eb] skip_events_at_length [of "lasttime sp + offset" ev1]
    have "int (length ?es2) + int (length ?ev2) \<le> int (length es) + int (length evs) + 1"
      by simp
    with k True show ?thesis
      by (intro exI [of _ "k + 1"]) auto
  qed
qed

lemma sample_span_simps [simp]:
  "lasttime (sample_span lt ld s) = lt"
  "lastdepth (sample_span lt ld s) = ld"
  "cur_depth (sample_span lt ld s) = sample_depth s"
  "cur_sac (sample_span lt ld s) = sample_sac s"
  "time (sample_span lt ld s) = (if int (sample_time s) \<le> lt then lt else int (sample_time s))"
  "delta (sample_span lt ld s) = (if int (sample_time s) \<le> lt then 1 else int (sample_time s) - lt)"
  by (simp_all add: sample_span_def Let_def)

lemma sample_step_count:
  assumes "10 * (int (length (entries st)) + int (length (d_ev st)) - c) \<le> d_lasttime st"
    and "10 * (int (length (entries st)) + int (length (d_ev st)) - c) \<le> maxtime"
  shows "10 * (int (length (entries (sample_step interp maxtime st s))) +
               int (length (d_ev (sample_step interp maxtime st s))) - (c + 1))
           \<le> d_lasttime (sample_step interp maxtime st s) \<and>
         10 * (int (length (entries (sample_step interp maxtime st s))) +
               int (length (d_ev (sample_step interp maxtime st s))) - (c + 1)) \<le> maxtime"
proof -
  let ?sp = "sample_span (d_lasttime st) (d_lastdepth st) s"
  obtain ev1 es1 where r: "raster interp maxtime ?sp 10 (d_ev st) (entries st) = (ev1, es1)"
    by force
  obtain ev2 es2 where eb: "events_before interp ?sp (time ?sp) ev1 es1 = (ev2, es2)"
    by force
  from raster_length [OF r] obtain k where k: "k \<ge> 0"
    "int (length es1) + int (length ev1) \<le> int (length (entries st)) + int (length (d_ev st)) + k"
    "k = 0 \<or> (10 + 10 * (k - 1) < delta ?sp \<and> d_lasttime st + 10 + 10 * (k - 1) \<le> maxtime)"
    by auto
  have st': "sample_step interp maxtime st s =
      \<lparr>entries = es2 @ [sample_entry ?sp s], d_ev = skip_events_at (time ?sp) ev2,
       d_lasttime = time ?sp, d_lastdepth = cur_depth ?sp\<rparr>"
    using r eb by (simp add: sample_step_def Let_def)
  from events_before_length [OF eb] skip_events_at_length [of "time ?sp" ev2]
  have len: "int (length es2) + int (length (skip_events_at (time ?sp) ev2))
      \<le> int (length es1) + int (length ev1)"
    by linarith
  have lt: "d_lasttime st \<le> time ?sp" by simp
  from k(3) have kt: "d_lasttime st + 10 * k \<le> time ?sp"
    by (auto split: if_splits)
  show ?thesis
    unfolding st' using assms k len lt kt by (auto split: if_splits)
qed

lemma sample_loop_count:
  assumes "10 * (int (length (entries st)) + int (length (d_ev st)) - c) \<le> d_lasttime st"
    and "10 * (int (length (entries st)) + int (length (d_ev st)) - c) \<le> maxtime"
  shows "10 * (int (length (entries (sample_loop interp maxtime st ss))) +
               int (length (d_ev (sample_loop interp maxtime st ss))) - (c + int (length ss)))
           \<le> maxtime"
  using assms
proof (induction ss arbitrary: st c)
  case Nil
  then show ?case by simp
next
  case (Cons s ss)
  let ?st' = "sample_step interp maxtime st s"
  from sample_step_count [OF Cons.prems, of interp s]
  have a: "10 * (int (length (entries ?st')) + int (length (d_ev ?st')) - (c + 1)) \<le> d_lasttime ?st'"
    and b: "10 * (int (length (entries ?st')) + int (length (d_ev ?st')) - (c + 1)) \<le> maxtime"
    by auto
  show ?case
  proof (cases "d_lasttime ?st' > maxtime")
    case True
    with b show ?thesis by (simp add: Let_def)
  next
    case False
    from Cons.IH [OF a b] False show ?thesis by (simp add: Let_def algebra_simps)
  qed
qed

lemma remaining_events_length:
  "remaining_events evs lt es = (lt', es') \<Longrightarrow> length es' \<le> length es + length evs"
  by (induction evs arbitrary: lt es) (force split: if_splits)+

lemma ten_times_le: "10 * (x::int) \<le> m \<Longrightarrow> x \<le> m div 10"
  by presburger

lemma populate_length_bound:
  assumes "0 \<le> maxtime" and "populate_plot_entries calloc_ok interp dc maxtime = Some es"
  shows "int (length es) + 2 \<le> plot_capacity dc maxtime"
proof -
  let ?ini = "\<lparr>entries = [zero_entry, zero_entry], d_ev = skip_events_at 0 (dc_events dc),
                d_lasttime = 0, d_lastdepth = 0\<rparr>"
  let ?st = "sample_loop interp maxtime ?ini (dc_sample dc)"
  let ?c = "2 + int (length (dc_events dc))"
  obtain lt es' where re: "remaining_events (d_ev ?st) (d_lasttime ?st) (entries ?st) = (lt, es')"
    by force
  with assms(2) have es: "es = es' @ [zero_entry\<lparr>sec := lt + 1\<rparr>, zero_entry\<lparr>sec := lt + 2\<rparr>]"
    by (auto simp: populate_plot_entries_def Let_def split: if_splits)
  have i1: "10 * (int (length (entries ?ini)) + int (length (d_ev ?ini)) - ?c) \<le> d_lasttime ?ini"
    using skip_events_at_length [of 0 "dc_events dc"] by simp
  have i2: "10 * (int (length (entries ?ini)) + int (length (d_ev ?ini)) - ?c) \<le> maxtime"
    using skip_events_at_length [of 0 "dc_events dc"] assms(1) by simp
  from sample_loop_count [OF i1 i2, of interp "dc_sample dc"]
  have "10 * (int (length (entries ?st)) + int (length (d_ev ?st))
            - (?c + int (length (dc_sample dc)))) \<le> maxtime" .
  then have "int (length (entries ?st)) + int (length (d_ev ?st))
            - (?c + int (length (dc_sample dc))) \<le> maxtime div 10"
    by (rule ten_times_le)
  moreover from remaining_events_length [OF re]
  have "int (length es') \<le> int (length (entries ?st)) + int (length (d_ev ?st))" by linarith
  moreover have "maxtime sdiv 10 = maxtime div 10"
    using assms(1) by (simp add: signed_divide_int_def sgn_if)
  ultimately show ?thesis
    unfolding es plot_capacity_def count_events_def by simp
qed

lemma sorted_sec_le_last:
  "sorted (map sec es) \<Longrightarrow> x \<in> set es \<Longrightarrow> sec x \<le> sec (last es)"
proof (induction es)
  case Nil
  then show ?case by simp
next
  case (Cons a es)
  then show ?case by (cases "es = []") auto
qed

lemma insert_entry_sorted:
  assumes "sorted (map sec es)" and "es \<noteq> []" and "sec (last es) \<le> t"
  shows "sorted (map sec (insert_entry es t d s))"
proof -
  have "\<forall>x \<in> set es. sec x \<le> t"
    using sorted_sec_le_last [OF assms(1)] assms(3) by fastforce
  with assms(1) show ?thesis
    by (simp add: insert_entry_def sorted_append)
qed

lemma skip_events_at_suffix: "\<exists>skipped. evs = skipped @ skip_events_at t evs"
proof (induction evs)
  case Nil
  then show ?case by simp
next
  case (Cons e evs)
  then obtain sk where "evs = sk @ skip_events_at t evs" by blast
  then have a: "e # evs = (e # sk) @ skip_events_at t evs" by simp
  show ?case
  proof (cases "int (event_time e) = t")
    case True
    then have "skip_events_at t (e # evs) = skip_events_at t evs" by simp
    with a show ?thesis by metis
  next
    case False
    then have "e # evs = [] @ skip_events_at t (e # evs)" by simp
    then show ?thesis by blast
  qed
qed

lemma skip_events_at_set: "set (skip_events_at t evs) \<subseteq> set evs"
  using skip_events_at_suffix [of evs t] by (metis Un_upper2 set_append)

lemma skip_events_at_sorted:
  "sorted (map event_time evs) \<Longrightarrow> sorted (map event_time (skip_events_at t evs))"
  using skip_events_at_suffix [of evs t] by (metis map_append sorted_append)

lemma events_before_sorted:
  assumes "events_before interp sp b evs es = (evs', es')"
    and "es \<noteq> []" and "sorted (map sec es)" and "sorted (map event_time evs)"
    and "\<forall>e \<in> set evs. sec (last es) \<le> int (event_time e)"
  shows "es' \<noteq> [] \<and> sorted (map sec es') \<and> sorted (map event_time evs') \<and>
         (\<forall>e \<in> set evs'. sec (last es') \<le> int (event_time e)) \<and>
         (\<forall>e \<in> set evs'. b \<le> int (event_time e)) \<and>
         (sec (last es') \<le> sec (last es) \<or> sec (last es') < b)"
  using assms
proof (induction evs arbitrary: es)
  case Nil
  then show ?case by simp
next
  case (Cons e evs)
  show ?case
  proof (cases "int (event_time e) < b")
    case False
    from Cons.prems(4) have "\<forall>x \<in> set evs. int (event_time e) \<le> int (event_time x)" by auto
    with False have "\<forall>x \<in> set (e # evs). b \<le> int (event_time x)" by auto
    with False Cons.prems show ?thesis by simp
  next
    case True
    let ?es1 = "insert_entry es (int (event_time e))
             (interp (lastdepth sp) (cur_depth sp) (int (event_time e) - lasttime sp) (delta sp))
             (cur_sac sp)"
    from True Cons.prems(1) have r: "events_before interp sp b evs ?es1 = (evs', es')" by simp
    from Cons.prems have s1: "sorted (map sec ?es1)"
      by (intro insert_entry_sorted) auto
    from Cons.prems(4) have s2: "sorted (map event_time evs)" by simp
    from Cons.prems(4) have s3: "\<forall>x \<in> set evs. sec (last ?es1) \<le> int (event_time x)" by auto
    from Cons.IH [OF r _ s1 s2 s3] True show ?thesis by auto
  qed
qed

lemma raster_sorted:
  assumes "raster interp maxtime sp offset evs es = (evs', es')"
    and "es \<noteq> []" and "sorted (map sec es)" and "sorted (map event_time evs)"
    and "\<forall>e \<in> set evs. sec (last es) \<le> int (event_time e)"
    and "sec (last es) \<le> lasttime sp + offset"
  shows "es' \<noteq> [] \<and> sorted (map sec es') \<and> sorted (map event_time evs') \<and>
         (\<forall>e \<in> set evs'. sec (last es') \<le> int (event_time e)) \<and>
         (sec (last es') \<le> sec (last es) \<or> (offset < delta sp \<and> sec (last es') < lasttime sp + delta sp))"
  using assms
proof (induction interp maxtime sp offset evs es rule: raster.induct)
  case (1 interp maxtime sp offset evs es)
  show ?case
  proof (cases "offset < delta sp \<and> \<not> lasttime sp + offset > maxtime")
    case False
    with "1.prems"(1) have "evs' = evs" "es' = es"
      by (auto simp: raster.simps [of interp maxtime sp offset evs es] split: if_splits)
    with "1.prems" show ?thesis by simp
  next
    case True
    then have c1: "offset < delta sp" and c2: "\<not> maxtime < lasttime sp + offset" by auto
    obtain ev1 es1 where eb: "events_before interp sp (lasttime sp + offset) evs es = (ev1, es1)"
      by force
    let ?ev2 = "skip_events_at (lasttime sp + offset) ev1"
    let ?es2 = "insert_entry es1 (lasttime sp + offset)
                     (interp (lastdepth sp) (cur_depth sp) offset (delta sp)) (cur_sac sp)"
    from True eb "1.prems"(1) have r: "raster interp maxtime sp (offset + 10) ?ev2 ?es2 = (evs', es')"
      by (simp add: raster.simps [of interp maxtime sp offset evs es])
    from events_before_sorted [OF eb "1.prems"(2,3,4,5)]
    have e1: "es1 \<noteq> []" "sorted (map sec es1)" "sorted (map event_time ev1)"
      "\<forall>e \<in> set ev1. lasttime sp + offset \<le> int (event_time e)"
      "sec (last es1) \<le> sec (last es) \<or> sec (last es1) < lasttime sp + offset"
      by auto
    from e1(5) "1.prems"(6) have le: "sec (last es1) \<le> lasttime sp + offset" by auto
    have a1: "?es2 \<noteq> []" by simp
    have a2: "sorted (map sec ?es2)" using e1 le by (intro insert_entry_sorted) auto
    have a3: "sorted (map event_time ?ev2)" using e1(3) by (rule skip_events_at_sorted)
    have a4: "\<forall>e \<in> set ?ev2. sec (last ?es2) \<le> int (event_time e)"
      using e1(4) skip_events_at_set [of "lasttime sp + offset" ev1] by auto
    have a5: "sec (last ?es2) \<le> lasttime sp + (offset + 10)" by simp
    from "1.IH" [OF c1 c2 eb [symmetric] r a1 a2 a3 a4 a5] c1
    show ?thesis by auto
  qed
qed

subsection \<open>The densifier: what it appends\<close>

lemma sample_entry_simps [simp]:
  "sec (sample_entry sp s) = time sp"
  "depth (sample_entry sp s) = cur_depth sp"
  "sac (sample_entry sp s) = sample_sac s"
  by (simp_all add: sample_entry_def Let_def)

lemma events_before_appends:
  "events_before interp sp b evs es = (evs', es') \<Longrightarrow>
   \<exists>new. es' = es @ new \<and>
     (\<forall>e \<in> set new. depth e = interp (lastdepth sp) (cur_depth sp) (sec e - lasttime sp) (delta sp))"
proof (induction evs arbitrary: es)
  case Nil
  then show ?case by simp
next
  case (Cons e evs)
  show ?case
  proof (cases "int (event_time e) < b")
    case False
    with Cons.prems show ?thesis by simp
  next
    case True
    let ?x = "(last es)\<lparr>sec := int (event_time e),
        depth := interp (lastdepth sp) (cur_depth sp) (int (event_time e) - lasttime sp) (delta sp),
        pressure := (\<lambda>_. 0), sac := cur_sac sp\<rparr>"
    from True Cons.prems have "events_before interp sp b evs (es @ [?x]) = (evs', es')"
      by (simp add: insert_entry_def)
    from Cons.IH [OF this] obtain new where
      "es' = (es @ [?x]) @ new"
      "\<forall>e \<in> set new. depth e = interp (lastdepth sp) (cur_depth sp) (sec e - lasttime sp) (delta sp)"
      by blast
    then show ?thesis by (intro exI [of _ "?x # new"]) simp
  qed
qed

lemma raster_appends:
  "raster interp maxtime sp offset evs es = (evs', es') \<Longrightarrow>
   \<exists>new. es' = es @ new \<and>
     (\<forall>e \<in> set new. depth e = interp (lastdepth sp) (cur_depth sp) (sec e - lasttime sp) (delta sp)) \<and>
     (\<forall>j\<ge>0. offset + 10 * j < delta sp \<and> lasttime sp + offset + 10 * j \<le> maxtime
        \<longrightarrow> (\<exists>e \<in> set new. sec e = lasttime sp + offset + 10 * j))"
proof (induction interp maxtime sp offset evs es rule: raster.induct)
  case (1 interp maxtime sp offset evs es)
  show ?case
  proof (cases "offset < delta sp \<and> \<not> lasttime sp + offset > maxtime")
    case False
    with "1.prems"(1) have "evs' = evs" "es' = es"
      by (auto simp: raster.simps [of interp maxtime sp offset evs es] split: if_splits)
    moreover have "\<forall>j\<ge>0. \<not> (offset + 10 * j < delta sp \<and> lasttime sp + offset + 10 * j \<le> maxtime)"
      using False by auto
    ultimately show ?thesis by (intro exI [of _ "[]"]) simp
  next
    case True
    then have c1: "offset < delta sp" and c2: "\<not> maxtime < lasttime sp + offset" by auto
    obtain ev1 es1 where eb: "events_before interp sp (lasttime sp + offset) evs es = (ev1, es1)"
      by force
    let ?ev2 = "skip_events_at (lasttime sp + offset) ev1"
    let ?x = "(last es1)\<lparr>sec := lasttime sp + offset,
        depth := interp (lastdepth sp) (cur_depth sp) offset (delta sp),
        pressure := (\<lambda>_. 0), sac := cur_sac sp\<rparr>"
    from True eb "1.prems"(1) have r: "raster interp maxtime sp (offset + 10) ?ev2 (insert_entry es1 (lasttime sp + offset)
                     (interp (lastdepth sp) (cur_depth sp) offset (delta sp)) (cur_sac sp)) = (evs', es')"
      by (simp add: raster.simps [of interp maxtime sp offset evs es])
    from events_before_appends [OF eb] obtain new1 where n1: "es1 = es @ new1"
      "\<forall>e \<in> set new1. depth e = interp (lastdepth sp) (cur_depth sp) (sec e - lasttime sp) (delta sp)"
      by blast
    from "1.IH" [OF c1 c2 eb [symmetric] r] obtain new2 where n2:
      "es' = (es1 @ [?x]) @ new2"
      "\<forall>e \<in> set new2. depth e = interp (lastdepth sp) (cur_depth sp) (sec e - lasttime sp) (delta sp)"
      "\<forall>j\<ge>0. offset + 10 + 10 * j < delta sp \<and> lasttime sp + (offset + 10) + 10 * j \<le> maxtime
        \<longrightarrow> (\<exists>e \<in> set new2. sec e = lasttime sp + (offset + 10) + 10 * j)"
      unfolding insert_entry_def by blast
    let ?new = "new1 @ ?x # new2"
    have a: "es' = es @ ?new" using n1 n2 by simp
    have b: "\<forall>e \<in> set ?new. depth e = interp (lastdepth sp) (cur_depth sp) (sec e - lasttime sp) (delta sp)"
      using n1 n2 by auto
    have c: "\<exists>e \<in> set ?new. sec e = lasttime sp + offset + 10 * j"
      if j: "j \<ge> 0" "offset + 10 * j < delta sp" "lasttime sp + offset + 10 * j \<le> maxtime" for j
    proof (cases "j = 0")
      case True
      then show ?thesis by simp
    next
      case False
      with j have "j - 1 \<ge> 0" "offset + 10 + 10 * (j - 1) < delta sp"
        "lasttime sp + (offset + 10) + 10 * (j - 1) \<le> maxtime" by auto
      with n2(3) obtain e where "e \<in> set new2" "sec e = lasttime sp + (offset + 10) + 10 * (j - 1)"
        by blast
      then show ?thesis by (intro bexI [of _ e]) auto
    qed
    from a b c show ?thesis by blast
  qed
qed


lemma sample_step_appends:
  "\<exists>new. entries (sample_step interp maxtime st s) =
       entries st @ new @ [sample_entry (sample_span (d_lasttime st) (d_lastdepth st) s) s] \<and>
     (\<forall>e \<in> set new. depth e =
        interp (d_lastdepth st) (sample_depth s) (sec e - d_lasttime st)
          (delta (sample_span (d_lasttime st) (d_lastdepth st) s))) \<and>
     (\<forall>k>0. 10 * k < delta (sample_span (d_lasttime st) (d_lastdepth st) s) \<and>
        d_lasttime st + 10 * k \<le> maxtime
        \<longrightarrow> (\<exists>e \<in> set new. sec e = d_lasttime st + 10 * k))"
proof -
  let ?sp = "sample_span (d_lasttime st) (d_lastdepth st) s"
  obtain ev1 es1 where r: "raster interp maxtime ?sp 10 (d_ev st) (entries st) = (ev1, es1)"
    by force
  obtain ev2 es2 where eb: "events_before interp ?sp (time ?sp) ev1 es1 = (ev2, es2)"
    by force
  have st': "entries (sample_step interp maxtime st s) = es2 @ [sample_entry ?sp s]"
    using r eb by (simp add: sample_step_def Let_def)
  from raster_appends [OF r] obtain new1 where n1: "es1 = entries st @ new1"
    "\<forall>e \<in> set new1. depth e = interp (lastdepth ?sp) (cur_depth ?sp) (sec e - lasttime ?sp) (delta ?sp)"
    "\<forall>j\<ge>0. 10 + 10 * j < delta ?sp \<and> lasttime ?sp + 10 + 10 * j \<le> maxtime
        \<longrightarrow> (\<exists>e \<in> set new1. sec e = lasttime ?sp + 10 + 10 * j)"
    by blast
  from events_before_appends [OF eb] obtain new2 where n2: "es2 = es1 @ new2"
    "\<forall>e \<in> set new2. depth e = interp (lastdepth ?sp) (cur_depth ?sp) (sec e - lasttime ?sp) (delta ?sp)"
    by blast
  have c: "\<exists>e \<in> set (new1 @ new2). sec e = d_lasttime st + 10 * k"
    if k: "k > 0" "10 * k < delta ?sp" "d_lasttime st + 10 * k \<le> maxtime" for k
  proof -
    from k have "k - 1 \<ge> 0" "10 + 10 * (k - 1) < delta ?sp"
      "lasttime ?sp + 10 + 10 * (k - 1) \<le> maxtime" by auto
    with n1(3) obtain e where "e \<in> set new1" "sec e = lasttime ?sp + 10 + 10 * (k - 1)"
      by blast
    then show ?thesis by (intro bexI [of _ e]) auto
  qed
  have a: "entries (sample_step interp maxtime st s) = entries st @ (new1 @ new2) @ [sample_entry ?sp s]"
    using st' n1(1) n2(1) by simp
  have b: "\<forall>e \<in> set (new1 @ new2). depth e =
        interp (d_lastdepth st) (sample_depth s) (sec e - d_lasttime st) (delta ?sp)"
    using n1(2) n2(2) by auto
  from a b c show ?thesis by blast
qed


lemma sample_step_lasttime [simp]:
  "d_lasttime (sample_step interp maxtime st s) =
     (if int (sample_time s) \<le> d_lasttime st then d_lasttime st else int (sample_time s))"
  "d_lastdepth (sample_step interp maxtime st s) = sample_depth s"
  by (simp_all add: sample_step_def Let_def split: prod.splits)

lemma sample_step_last:
  "entries (sample_step interp maxtime st s) \<noteq> [] \<and>
   sec (last (entries (sample_step interp maxtime st s))) = d_lasttime (sample_step interp maxtime st s) \<and>
   length (entries st) < length (entries (sample_step interp maxtime st s))"
proof -
  from sample_step_appends [of interp maxtime st s] obtain new where
    "entries (sample_step interp maxtime st s) =
       entries st @ new @ [sample_entry (sample_span (d_lasttime st) (d_lastdepth st) s) s]"
    by blast
  then show ?thesis by simp
qed

subsection \<open>The densifier: order of the entry times\<close>

lemma sample_step_sorted:
  assumes "entries st \<noteq> []" and "sorted (map sec (entries st))"
    and "sec (last (entries st)) \<le> d_lasttime st"
    and "sorted (map event_time (d_ev st))"
    and "\<forall>e \<in> set (d_ev st). sec (last (entries st)) \<le> int (event_time e)"
  shows "sorted (map sec (entries (sample_step interp maxtime st s))) \<and>
         sorted (map event_time (d_ev (sample_step interp maxtime st s))) \<and>
         (\<forall>e \<in> set (d_ev (sample_step interp maxtime st s)).
            sec (last (entries (sample_step interp maxtime st s))) \<le> int (event_time e))"
proof -
  let ?sp = "sample_span (d_lasttime st) (d_lastdepth st) s"
  obtain ev1 es1 where r: "raster interp maxtime ?sp 10 (d_ev st) (entries st) = (ev1, es1)"
    by force
  obtain ev2 es2 where eb: "events_before interp ?sp (time ?sp) ev1 es1 = (ev2, es2)"
    by force
  have st': "sample_step interp maxtime st s =
      \<lparr>entries = es2 @ [sample_entry ?sp s], d_ev = skip_events_at (time ?sp) ev2,
       d_lasttime = time ?sp, d_lastdepth = cur_depth ?sp\<rparr>"
    using r eb by (simp add: sample_step_def Let_def)
  have "sec (last (entries st)) \<le> lasttime ?sp + 10" using assms(3) by simp
  from raster_sorted [OF r assms(1,2,4,5) this]
  have r1: "es1 \<noteq> []" "sorted (map sec es1)" "sorted (map event_time ev1)"
    "\<forall>e \<in> set ev1. sec (last es1) \<le> int (event_time e)"
    "sec (last es1) \<le> sec (last (entries st)) \<or> (10 < delta ?sp \<and> sec (last es1) < lasttime ?sp + delta ?sp)"
    by auto
  from r1(5) assms(3) have l1: "sec (last es1) \<le> time ?sp"
    by (auto split: if_splits)
  from events_before_sorted [OF eb r1(1,2,3,4)]
  have r2: "es2 \<noteq> []" "sorted (map sec es2)" "sorted (map event_time ev2)"
    "\<forall>e \<in> set ev2. time ?sp \<le> int (event_time e)"
    "sec (last es2) \<le> sec (last es1) \<or> sec (last es2) < time ?sp"
    by auto
  from r2(5) l1 have l2: "sec (last es2) \<le> time ?sp" by auto
  have "\<forall>x \<in> set es2. sec x \<le> time ?sp"
    using sorted_sec_le_last [OF r2(2)] l2 by fastforce
  with r2(2) have a: "sorted (map sec (es2 @ [sample_entry ?sp s]))"
    by (simp add: sorted_append)
  have b: "sorted (map event_time (skip_events_at (time ?sp) ev2))"
    using r2(3) by (rule skip_events_at_sorted)
  have c: "\<forall>e \<in> set (skip_events_at (time ?sp) ev2). time ?sp \<le> int (event_time e)"
    using r2(4) skip_events_at_set [of "time ?sp" ev2] by auto
  from a b c show ?thesis unfolding st' by simp
qed

lemma sample_loop_sorted:
  assumes "entries st \<noteq> []" and "sorted (map sec (entries st))"
    and "sec (last (entries st)) = d_lasttime st"
    and "sorted (map event_time (d_ev st))"
    and "\<forall>e \<in> set (d_ev st). sec (last (entries st)) \<le> int (event_time e)"
  shows "sorted (map sec (entries (sample_loop interp maxtime st ss)))"
  using assms
proof (induction ss arbitrary: st)
  case Nil
  then show ?case by simp
next
  case (Cons s ss)
  let ?st' = "sample_step interp maxtime st s"
  from Cons.prems(3) have le: "sec (last (entries st)) \<le> d_lasttime st" by simp
  from sample_step_sorted [OF Cons.prems(1,2) le Cons.prems(4,5), of interp maxtime s]
  have a: "sorted (map sec (entries ?st'))" "sorted (map event_time (d_ev ?st'))"
    "\<forall>e \<in> set (d_ev ?st'). sec (last (entries ?st')) \<le> int (event_time e)"
    by auto
  from sample_step_last [of interp maxtime st s]
  have b: "entries ?st' \<noteq> []" "sec (last (entries ?st')) = d_lasttime ?st'" by auto
  show ?case
    using Cons.IH [OF b(1) a(1) b(2) a(2,3)] a(1) by (simp add: Let_def)
qed

lemma sample_loop_last:
  assumes "entries st \<noteq> []" and "sec (last (entries st)) = d_lasttime st"
  shows "entries (sample_loop interp maxtime st ss) \<noteq> [] \<and>
         sec (last (entries (sample_loop interp maxtime st ss))) = d_lasttime (sample_loop interp maxtime st ss) \<and>
         length (entries st) \<le> length (entries (sample_loop interp maxtime st ss))"
  using assms
proof (induction ss arbitrary: st)
  case Nil
  then show ?case by simp
next
  case (Cons s ss)
  let ?st' = "sample_step interp maxtime st s"
  from sample_step_last [of interp maxtime st s]
  have b: "entries ?st' \<noteq> []" "sec (last (entries ?st')) = d_lasttime ?st'"
    "length (entries st) < length (entries ?st')" by auto
  from Cons.IH [OF b(1,2)] b show ?case by (auto simp: Let_def)
qed

lemma remaining_events_last:
  assumes "remaining_events evs lt es = (lt', es')" and "es \<noteq> []" and "sec (last es) = lt"
  shows "es' \<noteq> [] \<and> sec (last es') = lt' \<and> length es \<le> length es'"
  using assms
proof (induction evs arbitrary: lt es)
  case Nil
  then show ?case by simp
next
  case (Cons e evs)
  show ?case
  proof (cases "int (event_time e) > lt")
    case True
    with Cons.prems(1) have "remaining_events evs (int (event_time e))
        (insert_entry es (int (event_time e)) 0 0) = (lt', es')" by simp
    from Cons.IH [OF this] show ?thesis by simp
  next
    case False
    with Cons.prems(1) have "remaining_events evs lt es = (lt', es')" by simp
    from Cons.IH [OF this Cons.prems(2,3)] show ?thesis .
  qed
qed

lemma remaining_events_sorted:
  assumes "remaining_events evs lt es = (lt', es')" and "es \<noteq> []" and "sec (last es) = lt"
    and "sorted (map sec es)"
  shows "sorted (map sec es')"
  using assms
proof (induction evs arbitrary: lt es)
  case Nil
  then show ?case by simp
next
  case (Cons e evs)
  show ?case
  proof (cases "int (event_time e) > lt")
    case True
    with Cons.prems(1) have r: "remaining_events evs (int (event_time e))
        (insert_entry es (int (event_time e)) 0 0) = (lt', es')" by simp
    from True Cons.prems have "sorted (map sec (insert_entry es (int (event_time e)) 0 0))"
      by (intro insert_entry_sorted) auto
    from Cons.IH [OF r _ _ this] show ?thesis by simp
  next
    case False
    with Cons.prems(1) have "remaining_events evs lt es = (lt', es')" by simp
    from Cons.IH [OF this Cons.prems(2,3,4)] show ?thesis .
  qed
qed

text \<open>The shape of the result: the entries before the padding, and the two padding entries.\<close>

lemma populate_shape:
  assumes "populate_plot_entries calloc_ok interp dc maxtime = Some es"
  shows "\<exists>body. es = body @ [zero_entry\<lparr>sec := sec (last body) + 1\<rparr>,
                            zero_entry\<lparr>sec := sec (last body) + 2\<rparr>] \<and> 2 \<le> length body \<and>
           (sorted (map event_time (dc_events dc)) \<longrightarrow> sorted (map sec body))"
proof -
  let ?ini = "\<lparr>entries = [zero_entry, zero_entry], d_ev = skip_events_at 0 (dc_events dc),
                d_lasttime = 0, d_lastdepth = 0\<rparr>"
  let ?st = "sample_loop interp maxtime ?ini (dc_sample dc)"
  obtain lt body where re: "remaining_events (d_ev ?st) (d_lasttime ?st) (entries ?st) = (lt, body)"
    by force
  with assms have es: "es = body @ [zero_entry\<lparr>sec := lt + 1\<rparr>, zero_entry\<lparr>sec := lt + 2\<rparr>]"
    by (auto simp: populate_plot_entries_def Let_def split: if_splits)
  have i: "entries ?ini \<noteq> []" "sec (last (entries ?ini)) = d_lasttime ?ini"
    by (simp_all add: zero_entry_def)
  from sample_loop_last [OF i, of interp maxtime "dc_sample dc"]
  have l: "entries ?st \<noteq> []" "sec (last (entries ?st)) = d_lasttime ?st" "2 \<le> length (entries ?st)"
    by auto
  from remaining_events_last [OF re l(1,2)]
  have b: "body \<noteq> []" "sec (last body) = lt" "length (entries ?st) \<le> length body" by auto
  have s: "sorted (map sec body)" if ord: "sorted (map event_time (dc_events dc))"
  proof -
    have j: "sorted (map sec (entries ?ini))" "sorted (map event_time (d_ev ?ini))"
      "\<forall>e \<in> set (d_ev ?ini). sec (last (entries ?ini)) \<le> int (event_time e)"
      using ord by (simp_all add: zero_entry_def skip_events_at_sorted)
    from sample_loop_sorted [OF i(1) j(1) i(2) j(2,3), of interp maxtime "dc_sample dc"]
    have "sorted (map sec (entries ?st))" .
    from remaining_events_sorted [OF re l(1,2) this] show ?thesis .
  qed
  from es b l(3) s show ?thesis by (intro exI [of _ body]) auto
qed

subsection \<open>The densifier: the divisor of the interpolation\<close>

lemma events_before_cong:
  assumes "\<forall>a b p w. 0 < w \<longrightarrow> f a b p w = g a b p w" and "0 < delta sp"
  shows "events_before f sp b evs es = events_before g sp b evs es"
  using assms by (induction evs arbitrary: es) auto

lemma raster_cong:
  assumes fg: "\<forall>a b p w. 0 < w \<longrightarrow> f a b p w = g a b p w" and d: "0 < delta sp"
  shows "raster f maxtime sp offset evs es = raster g maxtime sp offset evs es"
proof (induction "nat (delta sp - offset)" arbitrary: offset evs es rule: less_induct)
  case less
  show ?case
  proof (cases "offset < delta sp \<and> \<not> lasttime sp + offset > maxtime")
    case False
    then show ?thesis
      by (auto simp: raster.simps [of f maxtime sp offset evs es]
          raster.simps [of g maxtime sp offset evs es])
  next
    case True
    then have m: "nat (delta sp - (offset + 10)) < nat (delta sp - offset)" by auto
    have e: "events_before f sp (lasttime sp + offset) evs es
        = events_before g sp (lasttime sp + offset) evs es"
      using fg d by (rule events_before_cong)
    have i: "f (lastdepth sp) (cur_depth sp) offset (delta sp)
        = g (lastdepth sp) (cur_depth sp) offset (delta sp)"
      using fg d by simp
    show ?thesis
      using True e i less [OF m]
      by (simp add: raster.simps [of f maxtime sp offset evs es]
          raster.simps [of g maxtime sp offset evs es] split: prod.splits)
  qed
qed

lemma sample_step_cong:
  assumes "\<forall>a b p w. 0 < w \<longrightarrow> f a b p w = g a b p w"
  shows "sample_step f maxtime st s = sample_step g maxtime st s"
proof -
  have d: "0 < delta (sample_span (d_lasttime st) (d_lastdepth st) s)" by simp
  show ?thesis
    unfolding sample_step_def Let_def
    using raster_cong [OF assms d] events_before_cong [OF assms d] by simp
qed

lemma sample_loop_cong:
  assumes "\<forall>a b p w. 0 < w \<longrightarrow> f a b p w = g a b p w"
  shows "sample_loop f maxtime st ss = sample_loop g maxtime st ss"
  by (induction ss arbitrary: st) (simp_all add: sample_step_cong [OF assms] Let_def)

lemma populate_cong:
  assumes "\<forall>a b p w. 0 < w \<longrightarrow> f a b p w = g a b p w"
  shows "populate_plot_entries c f dc maxtime = populate_plot_entries c g dc maxtime"
  by (simp add: populate_plot_entries_def sample_loop_cong [OF assms])


lemma populate_returns: "\<exists>es. populate_plot_entries True interp dc maxtime = Some es"
  by (auto simp: populate_plot_entries_def Let_def split: prod.splits)

subsection \<open>The densifier: the entries of two consecutive samples\<close>

lemma interpolate_floor:
  assumes "0 < w"
  shows "interpolate a b p w = \<lfloor>real_of_int a + real_of_int (b - a) * real_of_int p / real_of_int w + 1 / 2\<rfloor>"
proof -
  let ?N = "a * (w - p) + b * p"
  have "interpolate a b p w = (2 * ?N + w) div (2 * w)"
    using assms by (simp add: interpolate_def)
  also have "\<dots> = \<lfloor>real_of_int (2 * ?N + w) / real_of_int (2 * w)\<rfloor>"
    by (rule floor_divide_of_int_eq [symmetric])
  also have "real_of_int (2 * ?N + w) / real_of_int (2 * w)
      = real_of_int a + real_of_int (b - a) * real_of_int p / real_of_int w + 1 / 2"
    using assms by (simp add: field_simps)
  finally show ?thesis .
qed

lemma interpolate_close:
  assumes "0 < w"
  shows "\<bar>real_of_int (interpolate a b p w)
           - (real_of_int a + real_of_int (b - a) * real_of_int p / real_of_int w)\<bar> \<le> 1 / 2"
  unfolding interpolate_floor [OF assms] by linarith

lemma interpolate_exact:
  assumes "0 < w" and "w dvd (b - a) * p"
  shows "interpolate a b p w = a + (b - a) * p div w"
proof -
  from assms(2) obtain m where m: "(b - a) * p = w * m" by (auto simp: dvd_def)
  have "a * (w - p) + b * p = w * a + (b - a) * p" by (simp add: algebra_simps)
  then have n: "2 * (a * (w - p) + b * p) + w = w + (a + m) * (2 * w)"
    unfolding m by (simp add: algebra_simps)
  have "interpolate a b p w = (w + (a + m) * (2 * w)) div (2 * w)"
    using assms(1) unfolding n [symmetric] by (simp add: interpolate_def)
  also have "\<dots> = a + m" using assms(1) by simp
  finally show ?thesis using assms(1) m by simp
qed

lemma events_before_events:
  "events_before interp sp b evs es = (evs', es') \<Longrightarrow>
   \<exists>new. es' = es @ new \<and> set evs' \<subseteq> set evs \<and>
     (\<forall>e \<in> set new. sec e < b \<and> (\<exists>v \<in> set evs. sec e = int (event_time v)))"
proof (induction evs arbitrary: es)
  case Nil
  then show ?case by simp
next
  case (Cons e evs)
  show ?case
  proof (cases "int (event_time e) < b")
    case False
    with Cons.prems show ?thesis by auto
  next
    case True
    let ?x = "(last es)\<lparr>sec := int (event_time e),
        depth := interp (lastdepth sp) (cur_depth sp) (int (event_time e) - lasttime sp) (delta sp),
        pressure := (\<lambda>_. 0), sac := cur_sac sp\<rparr>"
    from True Cons.prems have "events_before interp sp b evs (es @ [?x]) = (evs', es')"
      by (simp add: insert_entry_def)
    from Cons.IH [OF this] obtain new where n:
      "es' = (es @ [?x]) @ new" "set evs' \<subseteq> set evs"
      "\<forall>e \<in> set new. sec e < b \<and> (\<exists>v \<in> set evs. sec e = int (event_time v))"
      by blast
    have a: "es' = es @ (?x # new)" using n(1) by simp
    have b: "set evs' \<subseteq> set (e # evs)" using n(2) by auto
    have c: "\<forall>x \<in> set (?x # new). sec x < b \<and> (\<exists>v \<in> set (e # evs). sec x = int (event_time v))"
      using n(3) True by auto
    from a b c show ?thesis by blast
  qed
qed

lemma raster_events:
  "raster interp maxtime sp offset evs es = (evs', es') \<Longrightarrow> set evs' \<subseteq> set evs"
proof (induction interp maxtime sp offset evs es rule: raster.induct)
  case (1 interp maxtime sp offset evs es)
  show ?case
  proof (cases "offset < delta sp \<and> \<not> lasttime sp + offset > maxtime")
    case False
    with "1.prems" have "evs' = evs"
      by (auto simp: raster.simps [of interp maxtime sp offset evs es] split: if_splits)
    then show ?thesis by simp
  next
    case True
    then have c1: "offset < delta sp" and c2: "\<not> maxtime < lasttime sp + offset" by auto
    obtain ev1 es1 where eb: "events_before interp sp (lasttime sp + offset) evs es = (ev1, es1)"
      by force
    let ?ev2 = "skip_events_at (lasttime sp + offset) ev1"
    from True eb "1.prems" have r: "raster interp maxtime sp (offset + 10) ?ev2
        (insert_entry es1 (lasttime sp + offset)
           (interp (lastdepth sp) (cur_depth sp) offset (delta sp)) (cur_sac sp)) = (evs', es')"
      by (simp add: raster.simps [of interp maxtime sp offset evs es])
    from "1.IH" [OF c1 c2 eb [symmetric] r] have "set evs' \<subseteq> set ?ev2" .
    also have "\<dots> \<subseteq> set ev1" by (rule skip_events_at_set)
    also from events_before_events [OF eb] have "set ev1 \<subseteq> set evs" by blast
    finally show ?thesis .
  qed
qed

lemma sample_step_events: "set (d_ev (sample_step interp maxtime st s)) \<subseteq> set (d_ev st)"
proof -
  let ?sp = "sample_span (d_lasttime st) (d_lastdepth st) s"
  obtain ev1 es1 where r: "raster interp maxtime ?sp 10 (d_ev st) (entries st) = (ev1, es1)"
    by force
  obtain ev2 es2 where eb: "events_before interp ?sp (time ?sp) ev1 es1 = (ev2, es2)"
    by force
  have "d_ev (sample_step interp maxtime st s) = skip_events_at (time ?sp) ev2"
    using r eb by (simp add: sample_step_def Let_def)
  also have "set \<dots> \<subseteq> set ev2" by (rule skip_events_at_set)
  also from events_before_events [OF eb] have "set ev2 \<subseteq> set ev1" by blast
  also from raster_events [OF r] have "set ev1 \<subseteq> set (d_ev st)" .
  finally show ?thesis .
qed

lemma sample_step_clamped:
  assumes "int (sample_time s) \<le> d_lasttime st"
  shows "\<exists>mid. entries (sample_step interp maxtime st s) =
           entries st @ mid @ [sample_entry (sample_span (d_lasttime st) (d_lastdepth st) s) s] \<and>
         (\<forall>e \<in> set mid. sec e < d_lasttime st \<and> (\<exists>v \<in> set (d_ev st). sec e = int (event_time v)))"
proof -
  let ?sp = "sample_span (d_lasttime st) (d_lastdepth st) s"
  have d: "delta ?sp = 1" and t: "time ?sp = d_lasttime st" using assms by simp_all
  have r: "raster interp maxtime ?sp 10 (d_ev st) (entries st) = (d_ev st, entries st)"
    using d by (simp add: raster.simps [of interp maxtime ?sp 10])
  obtain ev2 es2 where eb: "events_before interp ?sp (time ?sp) (d_ev st) (entries st) = (ev2, es2)"
    by force
  have st': "entries (sample_step interp maxtime st s) = es2 @ [sample_entry ?sp s]"
    using r eb by (simp add: sample_step_def Let_def)
  from events_before_events [OF eb] obtain mid where
    "es2 = entries st @ mid"
    "\<forall>e \<in> set mid. sec e < time ?sp \<and> (\<exists>v \<in> set (d_ev st). sec e = int (event_time v))"
    by blast
  with st' t show ?thesis by (intro exI [of _ mid]) simp
qed

text \<open>The passes of the sample loop over a list of samples, without the \<open>break\<close>.\<close>

lemma passes_snoc:
  "foldl (sample_step interp maxtime) st (ss @ [s])
     = sample_step interp maxtime (foldl (sample_step interp maxtime) st ss) s"
  by simp

lemma passes_lasttime:
  "d_lasttime (foldl (sample_step interp maxtime) st ss)
     = Max (insert (d_lasttime st) (int ` sample_time ` set ss))"
proof (induction ss rule: rev_induct)
  case Nil
  then show ?case by simp
next
  case (snoc s ss)
  let ?M = "Max (insert (d_lasttime st) (int ` sample_time ` set ss))"
  have f: "finite (insert (d_lasttime st) (int ` sample_time ` set ss))" by simp
  have "Max (insert (d_lasttime st) (int ` sample_time ` set (ss @ [s])))
      = Max (insert (int (sample_time s)) (insert (d_lasttime st) (int ` sample_time ` set ss)))"
    by (simp add: insert_commute)
  also have "\<dots> = max (int (sample_time s)) ?M"
    by (rule Max_insert [OF f]) simp
  finally show ?case using snoc by (simp add: max_def)
qed

lemma passes_events:
  "set (d_ev (foldl (sample_step interp maxtime) st ss)) \<subseteq> set (d_ev st)"
proof (induction ss rule: rev_induct)
  case Nil
  then show ?case by simp
next
  case (snoc s ss)
  from sample_step_events [of interp maxtime "foldl (sample_step interp maxtime) st ss" s] snoc
  show ?case by auto
qed

lemma sample_loop_passes:
  assumes "\<forall>s \<in> set ss. int (sample_time s) \<le> maxtime" and "d_lasttime st \<le> maxtime"
  shows "sample_loop interp maxtime st (ss @ rest)
     = sample_loop interp maxtime (foldl (sample_step interp maxtime) st ss) rest"
  using assms
proof (induction ss arbitrary: st)
  case Nil
  then show ?case by simp
next
  case (Cons s ss)
  let ?st' = "sample_step interp maxtime st s"
  from Cons.prems have le: "d_lasttime ?st' \<le> maxtime" by simp
  from Cons.prems have "\<forall>s \<in> set ss. int (sample_time s) \<le> maxtime" by simp
  from Cons.IH [OF this le] le show ?case by (simp add: Let_def)
qed

lemma sample_loop_prefix: "prefix (entries st) (entries (sample_loop interp maxtime st ss))"
proof (induction ss arbitrary: st)
  case Nil
  then show ?case by simp
next
  case (Cons s ss)
  let ?st' = "sample_step interp maxtime st s"
  from sample_step_appends [of interp maxtime st s]
  have p: "prefix (entries st) (entries ?st')" by (auto simp: prefix_def)
  show ?case
  proof (cases "d_lasttime ?st' > maxtime")
    case True
    with p show ?thesis by (simp add: Let_def)
  next
    case False
    from p Cons.IH [of ?st'] have "prefix (entries st) (entries (sample_loop interp maxtime ?st' ss))"
      by (rule prefix_order.trans)
    with False show ?thesis by (simp add: Let_def)
  qed
qed

lemma remaining_events_prefix:
  "remaining_events evs lt es = (lt', es') \<Longrightarrow> prefix es es'"
proof (induction evs arbitrary: lt es)
  case Nil
  then show ?case by simp
next
  case (Cons e evs)
  show ?case
  proof (cases "int (event_time e) > lt")
    case True
    with Cons.prems have "remaining_events evs (int (event_time e))
        (insert_entry es (int (event_time e)) 0 0) = (lt', es')" by simp
    from Cons.IH [OF this] have "prefix (insert_entry es (int (event_time e)) 0 0) es'" .
    then show ?thesis by (auto simp: insert_entry_def prefix_def)
  next
    case False
    with Cons.prems have "remaining_events evs lt es = (lt', es')" by simp
    from Cons.IH [OF this] show ?thesis .
  qed
qed

text \<open>
  Two consecutive samples that the loop reaches: the series begins with the entries up to
  the entry of the earlier sample, followed by what the pass for the later sample appends.
\<close>

lemma populate_sample_pair:
  assumes p: "populate_plot_entries calloc_ok interp dc maxtime = Some es"
    and k: "Suc k < length (dc_sample dc)"
    and m: "\<forall>j \<le> k. int (sample_time (dc_sample dc ! j)) \<le> maxtime"
  shows "\<exists>st1 pre e1 post.
      entries st1 = pre @ [e1] \<and>
      sec e1 = Max (insert 0 (int ` sample_time ` set (take (Suc k) (dc_sample dc)))) \<and>
      depth e1 = sample_depth (dc_sample dc ! k) \<and>
      d_lasttime st1 = Max (insert 0 (int ` sample_time ` set (take (Suc k) (dc_sample dc)))) \<and>
      d_lastdepth st1 = sample_depth (dc_sample dc ! k) \<and>
      set (d_ev st1) \<subseteq> set (dc_events dc) \<and>
      es = entries (sample_step interp maxtime st1 (dc_sample dc ! Suc k)) @ post"
proof -
  let ?xs = "dc_sample dc"
  let ?ini = "\<lparr>entries = [zero_entry, zero_entry], d_ev = skip_events_at 0 (dc_events dc),
                d_lasttime = 0, d_lastdepth = 0\<rparr>"
  let ?sa = "foldl (sample_step interp maxtime) ?ini (take k ?xs)"
  let ?sb = "sample_step interp maxtime ?sa (?xs ! k)"
  let ?sc = "sample_step interp maxtime ?sb (?xs ! Suc k)"
  let ?fin = "sample_loop interp maxtime ?ini ?xs"
  have tk: "take (Suc k) ?xs = take k ?xs @ [?xs ! k]"
    using k by (simp add: take_Suc_conv_app_nth)
  have s1: "?sb = foldl (sample_step interp maxtime) ?ini (take (Suc k) ?xs)"
    unfolding tk by simp
  have xs: "?xs = take (Suc k) ?xs @ (?xs ! Suc k) # drop (Suc (Suc k)) ?xs"
    using k by (metis append_take_drop_id Cons_nth_drop_Suc)
  have le: "\<forall>s \<in> set (take (Suc k) ?xs). int (sample_time s) \<le> maxtime"
  proof
    fix s assume "s \<in> set (take (Suc k) ?xs)"
    then obtain j where "j < Suc k" "s = ?xs ! j"
      using k by (auto simp: in_set_conv_nth)
    with m show "int (sample_time s) \<le> maxtime" by simp
  qed
  from m have "int (sample_time (?xs ! 0)) \<le> maxtime" by simp
  then have m0: "d_lasttime ?ini \<le> maxtime" by simp
  have "?fin = sample_loop interp maxtime ?ini (take (Suc k) ?xs @ (?xs ! Suc k) # drop (Suc (Suc k)) ?xs)"
    using xs by simp
  also have "\<dots> = sample_loop interp maxtime ?sb ((?xs ! Suc k) # drop (Suc (Suc k)) ?xs)"
    unfolding s1 using le m0 by (rule sample_loop_passes)
  finally have st: "?fin = (if d_lasttime ?sc > maxtime then ?sc
      else sample_loop interp maxtime ?sc (drop (Suc (Suc k)) ?xs))"
    by (simp add: Let_def)
  have p2: "prefix (entries ?sc) (entries ?fin)"
    unfolding st using sample_loop_prefix [of ?sc interp maxtime] by simp
  obtain lt body where re: "remaining_events (d_ev ?fin) (d_lasttime ?fin) (entries ?fin) = (lt, body)"
    by force
  with p have es: "es = body @ [zero_entry\<lparr>sec := lt + 1\<rparr>, zero_entry\<lparr>sec := lt + 2\<rparr>]"
    by (auto simp: populate_plot_entries_def Let_def split: if_splits)
  from remaining_events_prefix [OF re] have "prefix (entries ?fin) body" .
  with p2 have "prefix (entries ?sc) body" by (rule prefix_order.trans)
  then obtain post where post: "es = entries ?sc @ post" unfolding es by (auto simp: prefix_def)
  have "d_lasttime ?sb = Max (insert (d_lasttime ?ini) (int ` sample_time ` set (take (Suc k) ?xs)))"
    unfolding s1 by (rule passes_lasttime)
  then have lt1: "d_lasttime ?sb = Max (insert 0 (int ` sample_time ` set (take (Suc k) ?xs)))"
    by simp
  have ld1: "d_lastdepth ?sb = sample_depth (?xs ! k)" by simp
  have "set (d_ev ?sb) \<subseteq> set (d_ev ?ini)" unfolding s1 by (rule passes_events)
  also have "\<dots> \<subseteq> set (dc_events dc)" using skip_events_at_set by simp
  finally have ev1: "set (d_ev ?sb) \<subseteq> set (dc_events dc)" .
  from sample_step_appends [of interp maxtime ?sa "?xs ! k"] obtain new1 where
    n1: "entries ?sb = entries ?sa @ new1 @
       [sample_entry (sample_span (d_lasttime ?sa) (d_lastdepth ?sa) (?xs ! k)) (?xs ! k)]"
    by blast
  let ?e1 = "sample_entry (sample_span (d_lasttime ?sa) (d_lastdepth ?sa) (?xs ! k)) (?xs ! k)"
  have a: "entries ?sb = (entries ?sa @ new1) @ [?e1]" using n1 by simp
  have "sec ?e1 = d_lasttime ?sb" by simp
  then have b: "sec ?e1 = Max (insert 0 (int ` sample_time ` set (take (Suc k) ?xs)))"
    unfolding lt1 .
  have c: "depth ?e1 = sample_depth (?xs ! k)" by simp
  from a b c lt1 ld1 ev1 post show ?thesis by blast
qed

lemma Max_times_last:
  assumes "k < length xs" and "\<forall>j < k. sample_time (xs ! j) \<le> sample_time (xs ! k)"
  shows "Max (insert 0 (int ` sample_time ` set (take (Suc k) xs))) = int (sample_time (xs ! k))"
proof (rule Max_eqI)
  show "finite (insert 0 (int ` sample_time ` set (take (Suc k) xs)))" by simp
  show "int (sample_time (xs ! k)) \<in> insert 0 (int ` sample_time ` set (take (Suc k) xs))"
    using assms(1) by (auto simp: take_Suc_conv_app_nth)
  fix y assume "y \<in> insert 0 (int ` sample_time ` set (take (Suc k) xs))"
  then consider "y = 0" | j where "j < Suc k" "y = int (sample_time (xs ! j))"
    using assms(1) by (auto simp: in_set_conv_nth)
  then show "y \<le> int (sample_time (xs ! k))"
  proof cases
    case 1
    then show ?thesis by simp
  next
    case 2
    with assms(2) show ?thesis by (cases "j = k") auto
  qed
qed

subsection \<open>The densifier: the properties\<close>

lemma samples_maxtime_ge: "maxtime \<le> samples_maxtime thr ss ld maxtime"
proof (induction ss arbitrary: ld maxtime)
  case Nil
  then show ?case by simp
next
  case (Cons s ss)
  let ?m = "if (sample_depth s > thr \<or> ld > thr) \<and> int (sample_time s) > maxtime
        then int (sample_time s) else maxtime"
  have "maxtime \<le> ?m" by simp
  also have "?m \<le> samples_maxtime thr ss (sample_depth s) ?m" by (rule Cons.IH)
  finally show ?case by simp
qed

lemma events_maxtime_ge: "maxtime \<le> events_maxtime evs maxtime"
proof (induction evs arbitrary: maxtime)
  case Nil
  then show ?case by simp
next
  case (Cons e evs)
  let ?m = "if int (event_time e) > maxtime then int (event_time e) else maxtime"
  have "maxtime \<le> ?m" by simp
  also have "?m \<le> events_maxtime evs ?m" by (rule Cons.IH)
  finally show ?case by simp
qed

lemma fold_maxtime_ge:
  "m \<le> fold (\<lambda>dc maxtime. events_maxtime (dc_events dc) (samples_maxtime thr (dc_sample dc) 0 maxtime)) dcs m"
proof (induction dcs arbitrary: m)
  case Nil
  then show ?case by simp
next
  case (Cons dc dcs)
  let ?m = "events_maxtime (dc_events dc) (samples_maxtime thr (dc_sample dc) 0 m)"
  have "m \<le> samples_maxtime thr (dc_sample dc) 0 m" by (rule samples_maxtime_ge)
  also have "\<dots> \<le> ?m" by (rule events_maxtime_ge)
  also have "?m \<le> fold (\<lambda>dc maxtime. events_maxtime (dc_events dc)
      (samples_maxtime thr (dc_sample dc) 0 maxtime)) dcs ?m" by (rule Cons.IH)
  finally show ?case by simp
qed

lemma calculate_max_limits_maxtime_nonneg: "0 \<le> calculate_max_limits_maxtime thr dcs"
  unfolding calculate_max_limits_maxtime_def by (rule fold_maxtime_ge)

text \<open>
  C9. The number of entries written, which is the final \<open>idx\<close> with the padding entries
  at both ends, the event entries and the raster entries, is at most the capacity
  \<open>dc->samples + 6 + maxtime / 10 + count_events(dc)\<close> of the array, for every sample
  array and event list and every \<open>maxtime\<close> that is not negative; the \<open>maxtime\<close> that
  \<open>calculate_max_limits_new\<close> computes never is. Entries are written at consecutive
  positions, so every write is inside the array.
\<close>

theorem populate_within_capacity:
  "(0 \<le> maxtime \<and> populate_plot_entries calloc_ok interp dc maxtime = Some es
      \<longrightarrow> int (length es) \<le> plot_capacity dc maxtime) \<and>
   (populate_plot_entries calloc_ok interp dc (calculate_max_limits_maxtime thr dcs) = Some es'
      \<longrightarrow> int (length es') \<le> plot_capacity dc (calculate_max_limits_maxtime thr dcs))"
  using populate_length_bound [of maxtime calloc_ok interp dc es]
    populate_length_bound [OF calculate_max_limits_maxtime_nonneg, of calloc_ok interp dc thr dcs es']
  by auto

theorem populate_within_capacity_witness:
  "\<exists>es. populate_plot_entries True interpolate example_dc 100 = Some es \<and>
     length es = 10 \<and> plot_capacity example_dc 100 = 20 \<and>
     int (length es) \<le> plot_capacity example_dc 100 \<and>
     calculate_max_limits_maxtime 750 [example_dc] = 40"
proof -
  obtain es where e: "populate_plot_entries True interpolate example_dc 100 = Some es"
    using populate_returns by blast
  have m: "(0::int) \<le> 100" by simp
  have "map_option length (populate_plot_entries True interpolate example_dc 100) = Some 10"
    by code_simp
  with e have l: "length es = 10" by simp
  have c: "plot_capacity example_dc 100 = 20" by code_simp
  have x: "calculate_max_limits_maxtime 750 [example_dc] = 40" by code_simp
  from populate_within_capacity [of 100 True interpolate example_dc es] m e
  have "int (length es) \<le> plot_capacity example_dc 100" by simp
  with e l c x show ?thesis by blast
qed

text \<open>
  C4, as the code has it. Every series that \<open>populate_plot_entries\<close> returns has at least
  4 entries, and its last two entries are padding entries (all fields zero but the time)
  one and two seconds after the time of the entry before them, the last real timestamp.
  The entry times are non-decreasing across the whole series when the event list is
  ordered by time, whatever the sample times are.
\<close>

theorem populate_series_shape:
  assumes "populate_plot_entries calloc_ok interp dc maxtime = Some es"
  shows "4 \<le> length es \<and>
         es ! (length es - 2) = zero_entry\<lparr>sec := sec (es ! (length es - 3)) + 1\<rparr> \<and>
         es ! (length es - 1) = zero_entry\<lparr>sec := sec (es ! (length es - 3)) + 2\<rparr> \<and>
         (sorted (map event_time (dc_events dc)) \<longrightarrow> sorted (map sec es))"
proof -
  from populate_shape [OF assms] obtain body where b:
    "es = body @ [zero_entry\<lparr>sec := sec (last body) + 1\<rparr>, zero_entry\<lparr>sec := sec (last body) + 2\<rparr>]"
    "2 \<le> length body"
    "sorted (map event_time (dc_events dc)) \<longrightarrow> sorted (map sec body)"
    by blast
  from b(2) have ne: "body \<noteq> []" by auto
  have l: "length es = length body + 2" using b(1) by simp
  have n3: "es ! (length es - 3) = last body"
    using b(1) ne l by (simp add: nth_append last_conv_nth)
  have n2: "es ! (length es - 2) = zero_entry\<lparr>sec := sec (last body) + 1\<rparr>"
    using b(1) l by (simp add: nth_append)
  have n1: "es ! (length es - 1) = zero_entry\<lparr>sec := sec (last body) + 2\<rparr>"
    using b(1) l by (simp add: nth_append)
  have s: "sorted (map sec es)" if "sorted (map event_time (dc_events dc))"
  proof -
    from that b(3) have sb: "sorted (map sec body)" by simp
    have "\<forall>x \<in> set body. sec x \<le> sec (last body)"
      using sorted_sec_le_last [OF sb] by blast
    then have "\<forall>x \<in> set body. sec x \<le> sec (last body) + 1 \<and> sec x \<le> sec (last body) + 2"
      by fastforce
    with sb show ?thesis
      unfolding b(1) by (simp add: sorted_append)
  qed
  from l b(2) n1 n2 n3 s show ?thesis by simp
qed

theorem populate_series_shape_witness:
  "\<exists>es. populate_plot_entries True interpolate example_dc 100 = Some es \<and>
     map sec es = [0, 0, 8, 10, 20, 25, 30, 40, 41, 42] \<and>
     4 \<le> length es \<and> sorted (map sec es) \<and>
     es ! (length es - 2) = zero_entry\<lparr>sec := sec (es ! (length es - 3)) + 1\<rparr> \<and>
     es ! (length es - 1) = zero_entry\<lparr>sec := sec (es ! (length es - 3)) + 2\<rparr>"
proof -
  obtain es where e: "populate_plot_entries True interpolate example_dc 100 = Some es"
    using populate_returns by blast
  have "map_option (map sec) (populate_plot_entries True interpolate example_dc 100)
      = Some [0, 0, 8, 10, 20, 25, 30, 40, 41, 42]"
    by code_simp
  with e have m: "map sec es = [0, 0, 8, 10, 20, 25, 30, 40, 41, 42]" by simp
  have o: "sorted (map event_time (dc_events example_dc))" by code_simp
  note t = populate_series_shape [OF e]
  from t have t1: "4 \<le> length es" by (rule conjunct1)
  from t have t2: "es ! (length es - 2) = zero_entry\<lparr>sec := sec (es ! (length es - 3)) + 1\<rparr>"
    by (elim conjE)
  from t have t3: "es ! (length es - 1) = zero_entry\<lparr>sec := sec (es ! (length es - 3)) + 2\<rparr>"
    by (elim conjE)
  from t have "sorted (map event_time (dc_events example_dc)) \<longrightarrow> sorted (map sec es)"
    by (elim conjE)
  with o have t4: "sorted (map sec es)" by (rule rev_mp)
  from e m t1 t4 t2 t3 show ?thesis by (intro exI [of _ es] conjI)
qed

text \<open>
  The claim as stated, for any event stream, fails: with the events at 8 s and then 3 s
  and one sample at 10 s, the entry times are 0, 0, 8, 3, 10, 11, 12.
\<close>

theorem populate_unordered_events_counterexample:
  "map_option (map sec) (populate_plot_entries True interpolate
      \<lparr>dc_sample = [sample_at 10 1000], dc_events = [event_at 8, event_at 3]\<rparr> 10)
     = Some [0, 0, 8, 3, 10, 11, 12] \<and>
   \<not> sorted [0, 0, 8, 3, 10, 11, 12 :: int]"
  by code_simp

text \<open>
  C7, as the code has it. Take two consecutive samples \<open>s1\<close> and \<open>s2\<close> of a dive
  computer, both reached by the sample loop (no sample up to \<open>s1\<close> is past \<open>maxtime\<close>),
  with the timestamp of \<open>s2\<close> above that of \<open>s1\<close>. \<open>L\<close> is the time the loop has reached
  after \<open>s1\<close>, the largest timestamp so far, and \<open>D\<close> the duration that the pass for
  \<open>s2\<close> works with. The series that \<open>populate_plot_entries\<close> returns holds the entry of
  \<open>s1\<close>, at the time \<open>L\<close> with the depth of \<open>s1\<close>, then the entries inserted between the
  two samples, then the entry of \<open>s2\<close>. Every entry in between, raster entry or event
  entry, has the depth that \<open>interpolate\<close> gives for the two depths at the entry's offset
  from \<open>L\<close> over \<open>D\<close>: the value on the line through the two samples, rounded to a
  whole millimetre. It is at most half a millimetre away from the exact value, and it is
  the exact value when that is a whole number. There is a raster entry at every offset of
  10, 20, ... seconds that is below \<open>D\<close> and not past \<open>maxtime\<close>. When no earlier sample
  has a timestamp above that of \<open>s1\<close>, \<open>L\<close> is the timestamp of \<open>s1\<close> and \<open>D\<close> the
  difference of the two timestamps.
\<close>

theorem raster_depth_interpolated:
  assumes "populate_plot_entries calloc_ok interpolate dc maxtime = Some es"
    and "Suc k < length (dc_sample dc)"
    and "\<forall>j \<le> k. int (sample_time (dc_sample dc ! j)) \<le> maxtime"
    and "s1 = dc_sample dc ! k" and "s2 = dc_sample dc ! Suc k"
    and "sample_time s1 < sample_time s2"
    and "L = Max (insert 0 (int ` sample_time ` set (take (Suc k) (dc_sample dc))))"
    and "D = delta (sample_span L (sample_depth s1) s2)"
  shows "\<exists>pre e1 mid post.
           es = pre @ [e1] @ mid @ [sample_entry (sample_span L (sample_depth s1) s2) s2] @ post \<and>
           sec e1 = L \<and> depth e1 = sample_depth s1 \<and>
           depth (sample_entry (sample_span L (sample_depth s1) s2) s2) = sample_depth s2 \<and>
           (\<forall>e \<in> set mid.
              depth e = interpolate (sample_depth s1) (sample_depth s2) (sec e - L) D \<and>
              \<bar>real_of_int (depth e) -
                 (real_of_int (sample_depth s1) +
                  real_of_int (sample_depth s2 - sample_depth s1) * real_of_int (sec e - L)
                    / real_of_int D)\<bar> \<le> 1 / 2 \<and>
              (D dvd (sample_depth s2 - sample_depth s1) * (sec e - L) \<longrightarrow>
                 depth e = sample_depth s1 + (sample_depth s2 - sample_depth s1) * (sec e - L) div D)) \<and>
           (\<forall>j>0. 10 * j < D \<and> L + 10 * j \<le> maxtime \<longrightarrow> (\<exists>e \<in> set mid. sec e = L + 10 * j)) \<and>
           ((\<forall>j<k. sample_time (dc_sample dc ! j) \<le> sample_time s1) \<longrightarrow>
              L = int (sample_time s1) \<and> D = int (sample_time s2) - int (sample_time s1) \<and>
              sec (sample_entry (sample_span L (sample_depth s1) s2) s2) = int (sample_time s2))"
proof -
  from populate_sample_pair [OF assms(1,2,3)] obtain st1 pre e1 post where q:
    "entries st1 = pre @ [e1]" "sec e1 = L" "depth e1 = sample_depth s1"
    "d_lasttime st1 = L" "d_lastdepth st1 = sample_depth s1"
    "es = entries (sample_step interpolate maxtime st1 s2) @ post"
    unfolding assms(4,5,7) by blast
  from sample_step_appends [of interpolate maxtime st1 s2] obtain mid where n:
    "entries (sample_step interpolate maxtime st1 s2)
       = entries st1 @ mid @ [sample_entry (sample_span L (sample_depth s1) s2) s2]"
    "\<forall>e \<in> set mid. depth e = interpolate (sample_depth s1) (sample_depth s2) (sec e - L) D"
    "\<forall>j>0. 10 * j < D \<and> L + 10 * j \<le> maxtime \<longrightarrow> (\<exists>e \<in> set mid. sec e = L + 10 * j)"
    unfolding q(4,5) assms(8) by blast
  have D: "0 < D" unfolding assms(8) by simp
  have a: "es = pre @ [e1] @ mid @ [sample_entry (sample_span L (sample_depth s1) s2) s2] @ post"
    unfolding q(6) n(1) q(1) by simp
  have b: "depth (sample_entry (sample_span L (sample_depth s1) s2) s2) = sample_depth s2"
    by simp
  have c: "depth e = interpolate (sample_depth s1) (sample_depth s2) (sec e - L) D \<and>
      \<bar>real_of_int (depth e) -
         (real_of_int (sample_depth s1) +
          real_of_int (sample_depth s2 - sample_depth s1) * real_of_int (sec e - L)
            / real_of_int D)\<bar> \<le> 1 / 2 \<and>
      (D dvd (sample_depth s2 - sample_depth s1) * (sec e - L) \<longrightarrow>
         depth e = sample_depth s1 + (sample_depth s2 - sample_depth s1) * (sec e - L) div D)"
    if "e \<in> set mid" for e
  proof -
    from that n(2) have d: "depth e = interpolate (sample_depth s1) (sample_depth s2) (sec e - L) D"
      by blast
    show ?thesis
      unfolding d using interpolate_close [OF D] interpolate_exact [OF D] by blast
  qed
  have d: "L = int (sample_time s1) \<and> D = int (sample_time s2) - int (sample_time s1) \<and>
      sec (sample_entry (sample_span L (sample_depth s1) s2) s2) = int (sample_time s2)"
    if "\<forall>j<k. sample_time (dc_sample dc ! j) \<le> sample_time s1"
  proof -
    from assms(2) have "k < length (dc_sample dc)" by simp
    from Max_times_last [OF this that [unfolded assms(4)]]
    have "L = int (sample_time s1)" unfolding assms(4,7) .
    with assms(6) show ?thesis unfolding assms(8) by simp
  qed
  from a q(2,3) b c n(3) d show ?thesis by blast
qed

theorem raster_depth_interpolated_witness:
  "\<exists>es. populate_plot_entries True interpolate example_dc 100 = Some es \<and>
     map (\<lambda>e. (sec e, depth e)) es =
       [(0, 0), (0, 0), (8, 800), (10, 1000), (20, 2000), (25, 2500), (30, 3000), (40, 4000),
        (41, 0), (42, 0)] \<and>
     (\<exists>pre e1 mid post.
        es = pre @ [e1] @ mid @ [sample_entry (sample_span 10 1000 (sample_at 40 4000)) (sample_at 40 4000)] @ post \<and>
        sec e1 = 10 \<and> depth e1 = 1000 \<and>
        (\<exists>e \<in> set mid. sec e = 20 \<and> depth e = 2000) \<and>
        (\<exists>e \<in> set mid. sec e = 30 \<and> depth e = 3000))"
proof -
  obtain es where e: "populate_plot_entries True interpolate example_dc 100 = Some es"
    using populate_returns by blast
  have "map_option (map (\<lambda>e. (sec e, depth e))) (populate_plot_entries True interpolate example_dc 100)
      = Some [(0, 0), (0, 0), (8, 800), (10, 1000), (20, 2000), (25, 2500), (30, 3000), (40, 4000),
        (41, 0), (42, 0)]"
    by code_simp
  with e have v: "map (\<lambda>e. (sec e, depth e)) es =
       [(0, 0), (0, 0), (8, 800), (10, 1000), (20, 2000), (25, 2500), (30, 3000), (40, 4000),
        (41, 0), (42, 0)]" by simp
  have k: "Suc 0 < length (dc_sample example_dc)" by (simp add: example_dc_def)
  have m: "\<forall>j \<le> 0. int (sample_time (dc_sample example_dc ! j)) \<le> 100"
    by (simp add: example_dc_def sample_at_def)
  have s1: "sample_at 10 1000 = dc_sample example_dc ! 0" by (simp add: example_dc_def)
  have s2: "sample_at 40 4000 = dc_sample example_dc ! Suc 0" by (simp add: example_dc_def)
  have lt: "sample_time (sample_at 10 1000) < sample_time (sample_at 40 4000)"
    by (simp add: sample_at_def)
  have L: "(10::int) = Max (insert 0 (int ` sample_time ` set (take (Suc 0) (dc_sample example_dc))))"
    by (simp add: example_dc_def sample_at_def)
  have D: "(30::int) = delta (sample_span 10 (sample_depth (sample_at 10 1000)) (sample_at 40 4000))"
    by (simp add: sample_at_def)
  from raster_depth_interpolated [OF e k m s1 s2 lt L D] obtain pre e1 mid post where r:
    "es = pre @ [e1] @ mid @
       [sample_entry (sample_span 10 (sample_depth (sample_at 10 1000)) (sample_at 40 4000))
          (sample_at 40 4000)] @ post"
    "sec e1 = 10" "depth e1 = sample_depth (sample_at 10 1000)"
    "\<forall>e \<in> set mid.
       depth e = interpolate (sample_depth (sample_at 10 1000)) (sample_depth (sample_at 40 4000))
                   (sec e - 10) 30 \<and>
       \<bar>real_of_int (depth e) -
          (real_of_int (sample_depth (sample_at 10 1000)) +
           real_of_int (sample_depth (sample_at 40 4000) - sample_depth (sample_at 10 1000))
             * real_of_int (sec e - 10) / real_of_int 30)\<bar> \<le> 1 / 2 \<and>
       (30 dvd (sample_depth (sample_at 40 4000) - sample_depth (sample_at 10 1000)) * (sec e - 10) \<longrightarrow>
          depth e = sample_depth (sample_at 10 1000) +
            (sample_depth (sample_at 40 4000) - sample_depth (sample_at 10 1000)) * (sec e - 10) div 30)"
    "\<forall>j>0. 10 * j < (30::int) \<and> 10 + 10 * j \<le> (100::int) \<longrightarrow> (\<exists>e \<in> set mid. sec e = 10 + 10 * j)"
    by (elim exE conjE) (rule that; assumption)
  have d1: "sample_depth (sample_at 10 1000) = 1000" and d2: "sample_depth (sample_at 40 4000) = 4000"
    by (simp_all add: sample_at_def)
  from r(5) [rule_format, of 1] have y1: "\<exists>e \<in> set mid. sec e = 20" by simp
  from r(5) [rule_format, of 2] have y2: "\<exists>e \<in> set mid. sec e = 30" by simp
  have c: "\<forall>e \<in> set mid. depth e = 100 * sec e"
  proof
    fix e assume "e \<in> set mid"
    with r(4) have "30 dvd (sample_depth (sample_at 40 4000) - sample_depth (sample_at 10 1000)) * (sec e - 10) \<longrightarrow>
          depth e = sample_depth (sample_at 10 1000) +
            (sample_depth (sample_at 40 4000) - sample_depth (sample_at 10 1000)) * (sec e - 10) div 30"
      by blast
    then show "depth e = 100 * sec e" unfolding d1 d2 by simp
  qed
  from y1 c have x1: "\<exists>e \<in> set mid. sec e = 20 \<and> depth e = 2000" by auto
  from y2 c have x2: "\<exists>e \<in> set mid. sec e = 30 \<and> depth e = 3000" by auto
  from r(1) have a: "es = pre @ [e1] @ mid @
       [sample_entry (sample_span 10 1000 (sample_at 40 4000)) (sample_at 40 4000)] @ post"
    unfolding d1 .
  from r(3) have b: "depth e1 = 1000" unfolding d1 .
  have "\<exists>pre e1 mid post.
        es = pre @ [e1] @ mid @ [sample_entry (sample_span 10 1000 (sample_at 40 4000)) (sample_at 40 4000)] @ post \<and>
        sec e1 = 10 \<and> depth e1 = 1000 \<and>
        (\<exists>e \<in> set mid. sec e = 20 \<and> depth e = 2000) \<and>
        (\<exists>e \<in> set mid. sec e = 30 \<and> depth e = 3000)"
  proof (intro exI conjI)
    show "es = pre @ [e1] @ mid @
       [sample_entry (sample_span 10 1000 (sample_at 40 4000)) (sample_at 40 4000)] @ post"
      by (rule a)
    show "sec e1 = 10" by (rule r(2))
    show "depth e1 = 1000" by (rule b)
    show "\<exists>e \<in> set mid. sec e = 20 \<and> depth e = 2000" by (rule x1)
    show "\<exists>e \<in> set mid. sec e = 30 \<and> depth e = 3000" by (rule x2)
  qed
  with e v have "populate_plot_entries True interpolate example_dc 100 = Some es \<and>
     map (\<lambda>e. (sec e, depth e)) es =
       [(0, 0), (0, 0), (8, 800), (10, 1000), (20, 2000), (25, 2500), (30, 3000), (40, 4000),
        (41, 0), (42, 0)] \<and>
     (\<exists>pre e1 mid post.
        es = pre @ [e1] @ mid @ [sample_entry (sample_span 10 1000 (sample_at 40 4000)) (sample_at 40 4000)] @ post \<and>
        sec e1 = 10 \<and> depth e1 = 1000 \<and>
        (\<exists>e \<in> set mid. sec e = 20 \<and> depth e = 2000) \<and>
        (\<exists>e \<in> set mid. sec e = 30 \<and> depth e = 3000))"
    by (intro conjI)
  then show ?thesis by (rule exI [of _ es])
qed

text \<open>
  The claim as stated, with the exact value, fails where the line does not pass through a
  whole number: between the samples at 10 s, 1000 mm and 40 s, 1001 mm the raster entry at
  20 s has the depth 1000 and the one at 30 s the depth 1001, and the line is at
  1000 + 1/3 and 1000 + 2/3.
\<close>

theorem raster_depth_rounded_counterexample:
  "map_option (map sec)
      (populate_plot_entries True interpolate
         \<lparr>dc_sample = [sample_at 10 1000, sample_at 40 1001], dc_events = []\<rparr> 100)
     = Some [0, 0, 10, 20, 30, 40, 41, 42] \<and>
   map_option (map depth)
      (populate_plot_entries True interpolate
         \<lparr>dc_sample = [sample_at 10 1000, sample_at 40 1001], dc_events = []\<rparr> 100)
     = Some [0, 0, 1000, 1000, 1001, 1001, 0, 0] \<and>
   real_of_int 1000 \<noteq> 1000 + real_of_int (1001 - 1000) * real_of_int (20 - 10) / real_of_int (40 - 10) \<and>
   real_of_int 1001 \<noteq> 1000 + real_of_int (1001 - 1000) * real_of_int (30 - 10) / real_of_int (40 - 10)"
proof -
  have a: "map_option (map sec)
      (populate_plot_entries True interpolate
         \<lparr>dc_sample = [sample_at 10 1000, sample_at 40 1001], dc_events = []\<rparr> 100)
     = Some [0, 0, 10, 20, 30, 40, 41, 42]"
    by code_simp
  have b: "map_option (map depth)
      (populate_plot_entries True interpolate
         \<lparr>dc_sample = [sample_at 10 1000, sample_at 40 1001], dc_events = []\<rparr> 100)
     = Some [0, 0, 1000, 1000, 1001, 1001, 0, 0]"
    by code_simp
  have c: "real_of_int 1000 \<noteq> 1000 + real_of_int (1001 - 1000) * real_of_int (20 - 10) / real_of_int (40 - 10)"
    by simp
  have d: "real_of_int 1001 \<noteq> 1000 + real_of_int (1001 - 1000) * real_of_int (30 - 10) / real_of_int (40 - 10)"
    by simp
  from a b c d show ?thesis by (intro conjI)
qed

text \<open>
  C8. Take two consecutive samples of a dive computer, both reached by the sample loop,
  the later one with the same or a smaller timestamp than the earlier one, and let \<open>L\<close>
  be the time the loop has reached after the earlier one, which is the time of its entry.
  The pass for the later sample works with the duration 1 and the time \<open>L\<close>, and the
  series that \<open>populate_plot_entries\<close> returns holds the entry of the earlier sample and,
  after it, the entry of the later sample with the time \<open>L\<close> and the later sample's
  depth: the sample is kept, and its time is the clamped one. Between the two there are no
  raster entries, only entries of events that were still waiting with a time before \<open>L\<close>.
  The duration is positive in every pass, and the result of the whole function does not
  depend on what \<open>interpolate\<close> returns for a divisor that is zero or negative: no call
  has one. The function returns a series whenever the allocation succeeds, whatever the
  timestamps.
\<close>

theorem nonincreasing_samples_clamped:
  "(populate_plot_entries calloc_ok interp dc maxtime = Some es \<and>
    Suc k < length (dc_sample dc) \<and>
    (\<forall>j \<le> k. int (sample_time (dc_sample dc ! j)) \<le> maxtime) \<and>
    earlier = dc_sample dc ! k \<and> later = dc_sample dc ! Suc k \<and>
    sample_time later \<le> sample_time earlier \<and>
    L = Max (insert 0 (int ` sample_time ` set (take (Suc k) (dc_sample dc)))) \<longrightarrow>
      delta (sample_span L (sample_depth earlier) later) = 1 \<and>
      time (sample_span L (sample_depth earlier) later) = L \<and>
      (\<exists>pre e1 mid post.
         es = pre @ [e1] @ mid @ [sample_entry (sample_span L (sample_depth earlier) later) later] @ post \<and>
         sec e1 = L \<and> depth e1 = sample_depth earlier \<and>
         sec (sample_entry (sample_span L (sample_depth earlier) later) later) = L \<and>
         depth (sample_entry (sample_span L (sample_depth earlier) later) later) = sample_depth later \<and>
         (\<forall>e \<in> set mid. sec e < L \<and> (\<exists>v \<in> set (dc_events dc). sec e = int (event_time v))))) \<and>
   0 < delta (sample_span lt ld s) \<and>
   ((\<forall>a b p w. 0 < w \<longrightarrow> f a b p w = g a b p w) \<longrightarrow>
      populate_plot_entries calloc_ok f dc maxtime = populate_plot_entries calloc_ok g dc maxtime) \<and>
   (\<exists>es. populate_plot_entries True interp dc maxtime = Some es)"
proof -
  have a: "delta (sample_span L (sample_depth earlier) later) = 1 \<and>
      time (sample_span L (sample_depth earlier) later) = L \<and>
      (\<exists>pre e1 mid post.
         es = pre @ [e1] @ mid @ [sample_entry (sample_span L (sample_depth earlier) later) later] @ post \<and>
         sec e1 = L \<and> depth e1 = sample_depth earlier \<and>
         sec (sample_entry (sample_span L (sample_depth earlier) later) later) = L \<and>
         depth (sample_entry (sample_span L (sample_depth earlier) later) later) = sample_depth later \<and>
         (\<forall>e \<in> set mid. sec e < L \<and> (\<exists>v \<in> set (dc_events dc). sec e = int (event_time v))))"
    if h: "populate_plot_entries calloc_ok interp dc maxtime = Some es"
      "Suc k < length (dc_sample dc)"
      "\<forall>j \<le> k. int (sample_time (dc_sample dc ! j)) \<le> maxtime"
      "earlier = dc_sample dc ! k" "later = dc_sample dc ! Suc k"
      "sample_time later \<le> sample_time earlier"
      "L = Max (insert 0 (int ` sample_time ` set (take (Suc k) (dc_sample dc))))"
  proof -
    from populate_sample_pair [OF h(1,2,3)] obtain st1 pre e1 post where q:
      "entries st1 = pre @ [e1]" "sec e1 = L" "depth e1 = sample_depth earlier"
      "d_lasttime st1 = L" "d_lastdepth st1 = sample_depth earlier"
      "set (d_ev st1) \<subseteq> set (dc_events dc)"
      "es = entries (sample_step interp maxtime st1 later) @ post"
      unfolding h(4,5,7) by blast
    have "int (sample_time earlier) \<in> insert 0 (int ` sample_time ` set (take (Suc k) (dc_sample dc)))"
      using h(2) unfolding h(4) by (auto simp: take_Suc_conv_app_nth)
    then have "int (sample_time earlier) \<le> L"
      unfolding h(7) by (intro Max_ge) simp_all
    with h(6) have le: "int (sample_time later) \<le> d_lasttime st1" unfolding q(4) by linarith
    from sample_step_clamped [OF le, of interp maxtime] obtain mid where n:
      "entries (sample_step interp maxtime st1 later)
         = entries st1 @ mid @ [sample_entry (sample_span L (sample_depth earlier) later) later]"
      "\<forall>e \<in> set mid. sec e < L \<and> (\<exists>v \<in> set (d_ev st1). sec e = int (event_time v))"
      unfolding q(4,5) by blast
    from le have sp: "delta (sample_span L (sample_depth earlier) later) = 1"
      "time (sample_span L (sample_depth earlier) later) = L"
      unfolding q(4) by simp_all
    have x: "es = pre @ [e1] @ mid @ [sample_entry (sample_span L (sample_depth earlier) later) later] @ post"
      unfolding q(7) n(1) q(1) by simp
    have y: "sec (sample_entry (sample_span L (sample_depth earlier) later) later) = L"
      "depth (sample_entry (sample_span L (sample_depth earlier) later) later) = sample_depth later"
      using sp(2) by simp_all
    have z: "\<forall>e \<in> set mid. sec e < L \<and> (\<exists>v \<in> set (dc_events dc). sec e = int (event_time v))"
      using n(2) q(6) by blast
    from x q(2,3) y z have "\<exists>pre e1 mid post.
         es = pre @ [e1] @ mid @ [sample_entry (sample_span L (sample_depth earlier) later) later] @ post \<and>
         sec e1 = L \<and> depth e1 = sample_depth earlier \<and>
         sec (sample_entry (sample_span L (sample_depth earlier) later) later) = L \<and>
         depth (sample_entry (sample_span L (sample_depth earlier) later) later) = sample_depth later \<and>
         (\<forall>e \<in> set mid. sec e < L \<and> (\<exists>v \<in> set (dc_events dc). sec e = int (event_time v)))"
      by (intro exI conjI)
    with sp show ?thesis by (intro conjI)
  qed
  have b: "0 < delta (sample_span lt ld s)" by simp
  have c: "populate_plot_entries calloc_ok f dc maxtime = populate_plot_entries calloc_ok g dc maxtime"
    if "\<forall>a b p w. 0 < w \<longrightarrow> f a b p w = g a b p w"
    using that by (rule populate_cong)
  show ?thesis
  proof (intro conjI impI)
    assume "populate_plot_entries calloc_ok interp dc maxtime = Some es \<and>
      Suc k < length (dc_sample dc) \<and>
      (\<forall>j \<le> k. int (sample_time (dc_sample dc ! j)) \<le> maxtime) \<and>
      earlier = dc_sample dc ! k \<and> later = dc_sample dc ! Suc k \<and>
      sample_time later \<le> sample_time earlier \<and>
      L = Max (insert 0 (int ` sample_time ` set (take (Suc k) (dc_sample dc))))"
    then have h: "populate_plot_entries calloc_ok interp dc maxtime = Some es"
      "Suc k < length (dc_sample dc)"
      "\<forall>j \<le> k. int (sample_time (dc_sample dc ! j)) \<le> maxtime"
      "earlier = dc_sample dc ! k" "later = dc_sample dc ! Suc k"
      "sample_time later \<le> sample_time earlier"
      "L = Max (insert 0 (int ` sample_time ` set (take (Suc k) (dc_sample dc))))"
      by blast+
    from a [OF h] show "delta (sample_span L (sample_depth earlier) later) = 1"
      by (rule conjunct1)
    from a [OF h] show "time (sample_span L (sample_depth earlier) later) = L"
      by (elim conjE)
    from a [OF h] show "\<exists>pre e1 mid post.
         es = pre @ [e1] @ mid @ [sample_entry (sample_span L (sample_depth earlier) later) later] @ post \<and>
         sec e1 = L \<and> depth e1 = sample_depth earlier \<and>
         sec (sample_entry (sample_span L (sample_depth earlier) later) later) = L \<and>
         depth (sample_entry (sample_span L (sample_depth earlier) later) later) = sample_depth later \<and>
         (\<forall>e \<in> set mid. sec e < L \<and> (\<exists>v \<in> set (dc_events dc). sec e = int (event_time v)))"
      by (elim conjE)
  next
    show "0 < delta (sample_span lt ld s)" by (rule b)
  next
    assume "\<forall>a b p w. 0 < w \<longrightarrow> f a b p w = g a b p w"
    then show "populate_plot_entries calloc_ok f dc maxtime = populate_plot_entries calloc_ok g dc maxtime"
      by (rule c)
  next
    show "\<exists>es. populate_plot_entries True interp dc maxtime = Some es"
      by (rule populate_returns)
  qed
qed

theorem nonincreasing_samples_clamped_witness:
  "\<exists>es. populate_plot_entries True interpolate
            \<lparr>dc_sample = [sample_at 100 1000, sample_at 50 2000], dc_events = []\<rparr> 150 = Some es \<and>
     map (\<lambda>e. (sec e, depth e)) es =
       [(0, 0), (0, 0), (10, 100), (20, 200), (30, 300), (40, 400), (50, 500), (60, 600),
        (70, 700), (80, 800), (90, 900), (100, 1000), (100, 2000), (101, 0), (102, 0)] \<and>
     delta (sample_span 100 1000 (sample_at 50 2000)) = 1 \<and>
     time (sample_span 100 1000 (sample_at 50 2000)) = 100 \<and>
     (\<exists>pre e1 post.
        es = pre @ [e1, sample_entry (sample_span 100 1000 (sample_at 50 2000)) (sample_at 50 2000)] @ post \<and>
        sec e1 = 100 \<and> depth e1 = 1000 \<and>
        sec (sample_entry (sample_span 100 1000 (sample_at 50 2000)) (sample_at 50 2000)) = 100 \<and>
        depth (sample_entry (sample_span 100 1000 (sample_at 50 2000)) (sample_at 50 2000)) = 2000)"
proof -
  let ?dc = "\<lparr>dc_sample = [sample_at 100 1000, sample_at 50 2000], dc_events = []\<rparr>"
  let ?e2 = "sample_entry (sample_span 100 1000 (sample_at 50 2000)) (sample_at 50 2000)"
  obtain es where e: "populate_plot_entries True interpolate ?dc 150 = Some es"
    using populate_returns by blast
  have "map_option (map (\<lambda>e. (sec e, depth e))) (populate_plot_entries True interpolate ?dc 150)
      = Some [(0, 0), (0, 0), (10, 100), (20, 200), (30, 300), (40, 400), (50, 500), (60, 600),
        (70, 700), (80, 800), (90, 900), (100, 1000), (100, 2000), (101, 0), (102, 0)]"
    by code_simp
  with e have v: "map (\<lambda>e. (sec e, depth e)) es =
       [(0, 0), (0, 0), (10, 100), (20, 200), (30, 300), (40, 400), (50, 500), (60, 600),
        (70, 700), (80, 800), (90, 900), (100, 1000), (100, 2000), (101, 0), (102, 0)]" by simp
  have h: "populate_plot_entries True interpolate ?dc 150 = Some es \<and>
      Suc 0 < length (dc_sample ?dc) \<and>
      (\<forall>j \<le> 0. int (sample_time (dc_sample ?dc ! j)) \<le> 150) \<and>
      sample_at 100 1000 = dc_sample ?dc ! 0 \<and> sample_at 50 2000 = dc_sample ?dc ! Suc 0 \<and>
      sample_time (sample_at 50 2000) \<le> sample_time (sample_at 100 1000) \<and>
      (100::int) = Max (insert 0 (int ` sample_time ` set (take (Suc 0) (dc_sample ?dc))))"
    using e by (simp add: sample_at_def)
  have d1: "sample_depth (sample_at 100 1000) = 1000" by (simp add: sample_at_def)
  note t = nonincreasing_samples_clamped [where calloc_ok = True and interp = interpolate
      and dc = ?dc and maxtime = 150 and es = es and k = 0 and earlier = "sample_at 100 1000"
      and later = "sample_at 50 2000" and L = 100]
  from t have "populate_plot_entries True interpolate ?dc 150 = Some es \<and>
      Suc 0 < length (dc_sample ?dc) \<and>
      (\<forall>j \<le> 0. int (sample_time (dc_sample ?dc ! j)) \<le> 150) \<and>
      sample_at 100 1000 = dc_sample ?dc ! 0 \<and> sample_at 50 2000 = dc_sample ?dc ! Suc 0 \<and>
      sample_time (sample_at 50 2000) \<le> sample_time (sample_at 100 1000) \<and>
      (100::int) = Max (insert 0 (int ` sample_time ` set (take (Suc 0) (dc_sample ?dc)))) \<longrightarrow>
      delta (sample_span 100 (sample_depth (sample_at 100 1000)) (sample_at 50 2000)) = 1 \<and>
      time (sample_span 100 (sample_depth (sample_at 100 1000)) (sample_at 50 2000)) = 100 \<and>
      (\<exists>pre e1 mid post.
         es = pre @ [e1] @ mid @ [sample_entry (sample_span 100 (sample_depth (sample_at 100 1000)) (sample_at 50 2000)) (sample_at 50 2000)] @ post \<and>
         sec e1 = 100 \<and> depth e1 = sample_depth (sample_at 100 1000) \<and>
         sec (sample_entry (sample_span 100 (sample_depth (sample_at 100 1000)) (sample_at 50 2000)) (sample_at 50 2000)) = 100 \<and>
         depth (sample_entry (sample_span 100 (sample_depth (sample_at 100 1000)) (sample_at 50 2000)) (sample_at 50 2000)) = sample_depth (sample_at 50 2000) \<and>
         (\<forall>e \<in> set mid. sec e < 100 \<and> (\<exists>v \<in> set (dc_events ?dc). sec e = int (event_time v))))"
    by (rule conjunct1)
  from this h have r: "delta (sample_span 100 (sample_depth (sample_at 100 1000)) (sample_at 50 2000)) = 1 \<and>
      time (sample_span 100 (sample_depth (sample_at 100 1000)) (sample_at 50 2000)) = 100 \<and>
      (\<exists>pre e1 mid post.
         es = pre @ [e1] @ mid @ [sample_entry (sample_span 100 (sample_depth (sample_at 100 1000)) (sample_at 50 2000)) (sample_at 50 2000)] @ post \<and>
         sec e1 = 100 \<and> depth e1 = sample_depth (sample_at 100 1000) \<and>
         sec (sample_entry (sample_span 100 (sample_depth (sample_at 100 1000)) (sample_at 50 2000)) (sample_at 50 2000)) = 100 \<and>
         depth (sample_entry (sample_span 100 (sample_depth (sample_at 100 1000)) (sample_at 50 2000)) (sample_at 50 2000)) = sample_depth (sample_at 50 2000) \<and>
         (\<forall>e \<in> set mid. sec e < 100 \<and> (\<exists>v \<in> set (dc_events ?dc). sec e = int (event_time v))))"
    by (rule mp)
  from r have r1: "delta (sample_span 100 1000 (sample_at 50 2000)) = 1"
    unfolding d1 by (rule conjunct1)
  from r have r2: "time (sample_span 100 1000 (sample_at 50 2000)) = 100"
    unfolding d1 by (elim conjE)
  from r obtain pre e1 mid post where q:
    "es = pre @ [e1] @ mid @ [?e2] @ post" "sec e1 = 100" "depth e1 = 1000"
    "sec ?e2 = 100" "depth ?e2 = sample_depth (sample_at 50 2000)"
    "\<forall>e \<in> set mid. sec e < 100 \<and> (\<exists>v \<in> set (dc_events ?dc). sec e = int (event_time v))"
    unfolding d1 by (elim exE conjE) (rule that; assumption)
  from q(6) have "set mid = {}" by auto
  then have mid: "mid = []" by simp
  have d2: "depth ?e2 = 2000" using q(5) by (simp add: sample_at_def)
  have x: "\<exists>pre e1 post. es = pre @ [e1, ?e2] @ post \<and> sec e1 = 100 \<and> depth e1 = 1000 \<and>
      sec ?e2 = 100 \<and> depth ?e2 = 2000"
  proof (intro exI conjI)
    show "es = pre @ [e1, ?e2] @ post" using q(1) mid by simp
    show "sec e1 = 100" by (rule q(2))
    show "depth e1 = 1000" by (rule q(3))
    show "sec ?e2 = 100" by (rule q(4))
    show "depth ?e2 = 2000" by (rule d2)
  qed
  from e v r1 r2 x have "populate_plot_entries True interpolate ?dc 150 = Some es \<and>
     map (\<lambda>e. (sec e, depth e)) es =
       [(0, 0), (0, 0), (10, 100), (20, 200), (30, 300), (40, 400), (50, 500), (60, 600),
        (70, 700), (80, 800), (90, 900), (100, 1000), (100, 2000), (101, 0), (102, 0)] \<and>
     delta (sample_span 100 1000 (sample_at 50 2000)) = 1 \<and>
     time (sample_span 100 1000 (sample_at 50 2000)) = 100 \<and>
     (\<exists>pre e1 post. es = pre @ [e1, ?e2] @ post \<and> sec e1 = 100 \<and> depth e1 = 1000 \<and>
        sec ?e2 = 100 \<and> depth ?e2 = 2000)"
    by (intro conjI)
  then show ?thesis by (rule exI [of _ es])
qed

subsection \<open>The consumption estimator\<close>





















subsection \<open>The gas pressure reconstructor\<close>

lemma target_index_less: "pinfo \<noteq> [] \<Longrightarrow> target_index t pinfo < length pinfo"
  by (induction t pinfo rule: target_index.induct) auto




lemma add_plot_pressure_sec [simp]: "map sec (add_plot_pressure pinfo t cyl p) = map sec pinfo"
  by (simp add: add_plot_pressure_def Let_def map_update list_update_same_conv target_index_less)

lemma add_plot_pressure_length [simp]: "length (add_plot_pressure pinfo t cyl p) = length pinfo"
  by (simp add: add_plot_pressure_def Let_def)


lemma fill_cylinder_sec [simp]: "map sec (fill_cylinder cyls sn g i pinfo) = map sec pinfo"
  by (simp add: fill_cylinder_def)

lemma fill_cylinder_length [simp]: "length (fill_cylinder cyls sn g i pinfo) = length pinfo"
  by (simp add: fill_cylinder_def)


lemma fold_fill_sec [simp]: "map sec (fold (fill_cylinder cyls sn g) is pinfo) = map sec pinfo"
  by (induction "is" arbitrary: pinfo) simp_all

lemma fold_fill_length [simp]: "length (fold (fill_cylinder cyls sn g) is pinfo) = length pinfo"
  by (induction "is" arbitrary: pinfo) simp_all


subsection \<open>The gas pressure reconstructor: the properties\<close>







subsection \<open>The outer loop of the decompression solver\<close>








subsection \<open>The nested simulation\<close>









end
